theory Spec2Isabelle
  imports Main "HOL-Library.Multiset"
begin

section \<open>Text, bytes and exceptions\<close>

text \<open>
  A Python \<open>str\<close> is a sequence of Unicode code points, modelled as a list of naturals;
  a Python \<open>bytes\<close> object is a list of 8-bit characters (\<open>string\<close>). \<open>len\<close> of a
  \<open>str\<close> counts code points, \<open>len\<close> of a \<open>bytes\<close> counts bytes.
\<close>

type_synonym ustr = "nat list"
type_synonym bytes = "string"

definition ascii :: "string \<Rightarrow> ustr" where
  \<comment> \<open>a \<open>str\<close> literal of the source whose characters are all ASCII\<close>
  "ascii s = map of_char s"

text \<open>
  The exceptions that the modelled code can meet. \<open>IOError\<close> is an alias of \<open>OSError\<close>
  and \<open>BrokenPipeError\<close> is one of its subclasses; the decoding errors are subclasses of
  \<open>ValueError\<close>. All of them are subclasses of \<open>Exception\<close>. \<open>HandlerError\<close> stands for
  the exceptions of registered callbacks. \<open>Float_unmodelled\<close> is not an exception of
  Python: the parser of the model answers it where Python would build a float.
\<close>

datatype exn =
    IOError | BrokenPipeError
  | ValueError | JSONDecodeError | UnicodeDecodeError | UnicodeEncodeError
  | KeyError | TypeError | AttributeError | NameError | UnboundLocalError
  | RecursionError | Float_unmodelled
  | HandlerError nat

definition is_IOError :: "exn \<Rightarrow> bool" where
  \<comment> \<open>what \<open>except IOError\<close> catches\<close>
  "is_IOError e = (e = IOError \<or> e = BrokenPipeError)"

definition is_BrokenPipeError :: "exn \<Rightarrow> bool" where
  "is_BrokenPipeError e = (e = BrokenPipeError)"

subsection \<open>Decimal text of integers\<close>

fun dec_nat :: "nat \<Rightarrow> ustr" where
  "dec_nat n = (if n < 10 then [48 + n] else dec_nat (n div 10) @ [48 + n mod 10])"

declare dec_nat.simps [simp del]

definition str_int :: "int \<Rightarrow> ustr" where
  \<comment> \<open>\<open>str(i)\<close>, also what \<open>"{}".format(i)\<close> and \<open>json.dumps(i)\<close> print\<close>
  "str_int i = (if i < 0 then 45 # dec_nat (nat (- i)) else dec_nat (nat i))"

subsection \<open>UTF-8\<close>

definition utf8_char :: "nat \<Rightarrow> exn + bytes" where
  \<comment> \<open>the strict UTF-8 encoder: surrogates are refused\<close>
  "utf8_char c =
     (if c < 0x80 then Inr [char_of c]
      else if c < 0x800 then Inr [char_of (0xC0 + c div 64), char_of (0x80 + c mod 64)]
      else if 0xD800 \<le> c \<and> c \<le> 0xDFFF then Inl UnicodeEncodeError
      else if c < 0x10000 then
        Inr [char_of (0xE0 + c div 4096), char_of (0x80 + c div 64 mod 64),
             char_of (0x80 + c mod 64)]
      else if c < 0x110000 then
        Inr [char_of (0xF0 + c div 262144), char_of (0x80 + c div 4096 mod 64),
             char_of (0x80 + c div 64 mod 64), char_of (0x80 + c mod 64)]
      else Inl UnicodeEncodeError)"

fun utf8_encode :: "ustr \<Rightarrow> exn + bytes" where
  \<comment> \<open>\<open>bytes(s, 'UTF-8')\<close>\<close>
  "utf8_encode [] = Inr []"
| "utf8_encode (c # cs) =
     (case utf8_char c of
        Inl e \<Rightarrow> Inl e
      | Inr b \<Rightarrow> (case utf8_encode cs of Inl e \<Rightarrow> Inl e | Inr bs \<Rightarrow> Inr (b @ bs)))"

definition cont :: "char \<Rightarrow> bool" where
  \<comment> \<open>a continuation byte \<open>10xxxxxx\<close>\<close>
  "cont b = (0x80 \<le> (of_char b :: nat) \<and> (of_char b :: nat) < 0xC0)"

fun utf8_decode :: "bytes \<Rightarrow> exn + ustr" where
  \<comment> \<open>\<open>b.decode("UTF-8")\<close>, strict: overlong forms, surrogates, code points beyond
      U+10FFFF and truncated sequences raise \<open>UnicodeDecodeError\<close>\<close>
  "utf8_decode [] = Inr []"
| "utf8_decode (b # bs) =
     (let n = (of_char b :: nat) in
      if n < 0x80 then
        (case utf8_decode bs of Inl e \<Rightarrow> Inl e | Inr cs \<Rightarrow> Inr (n # cs))
      else if 0xC2 \<le> n \<and> n < 0xE0 then
        (case bs of
           b1 # r \<Rightarrow>
             if cont b1 then
               (case utf8_decode r of Inl e \<Rightarrow> Inl e
                | Inr cs \<Rightarrow> Inr (((n - 0xC0) * 64 + (of_char b1 - 0x80)) # cs))
             else Inl UnicodeDecodeError
         | _ \<Rightarrow> Inl UnicodeDecodeError)
      else if 0xE0 \<le> n \<and> n < 0xF0 then
        (case bs of
           b1 # b2 # r \<Rightarrow>
             (let c = (n - 0xE0) * 4096 + (of_char b1 - 0x80) * 64 + (of_char b2 - 0x80) in
              if cont b1 \<and> cont b2 \<and> 0x800 \<le> c \<and> \<not> (0xD800 \<le> c \<and> c \<le> 0xDFFF) then
                (case utf8_decode r of Inl e \<Rightarrow> Inl e | Inr cs \<Rightarrow> Inr (c # cs))
              else Inl UnicodeDecodeError)
         | _ \<Rightarrow> Inl UnicodeDecodeError)
      else if 0xF0 \<le> n \<and> n < 0xF5 then
        (case bs of
           b1 # b2 # b3 # r \<Rightarrow>
             (let c = (n - 0xF0) * 262144 + (of_char b1 - 0x80) * 4096
                      + (of_char b2 - 0x80) * 64 + (of_char b3 - 0x80) in
              if cont b1 \<and> cont b2 \<and> cont b3 \<and> 0x10000 \<le> c \<and> c < 0x110000 then
                (case utf8_decode r of Inl e \<Rightarrow> Inl e | Inr cs \<Rightarrow> Inr (c # cs))
              else Inl UnicodeDecodeError)
         | _ \<Rightarrow> Inl UnicodeDecodeError)
      else Inl UnicodeDecodeError)"

section \<open>JSON values and \<open>json.dumps\<close>\<close>

text \<open>
  The payloads are the JSON-serialisable Python values: \<open>None\<close>, booleans, integers,
  strings, lists, and dictionaries with string keys (in insertion order). Floating-point
  numbers are outside the model.
\<close>

datatype json =
    JNull
  | JBool bool
  | JInt int
  | JStr ustr
  | JArr "json list"
  | JObj "(ustr \<times> json) list"

text \<open>
  \<open>json.dumps(payload, sort_keys=False)\<close> of the standard library, with its defaults:
  \<open>ensure_ascii=True\<close>, item separator \<open>", "\<close>, key separator \<open>": "\<close>. A string is
  quoted; the quote, the backslash and the control characters with a short form get
  that form, every other character outside \<open>' '..'~'\<close> becomes \<open>\uXXXX\<close> (a surrogate
  pair beyond the basic plane).
\<close>

definition hex_digit :: "nat \<Rightarrow> nat" where
  "hex_digit d = (if d < 10 then 48 + d else 87 + d)"

definition u_escape :: "nat \<Rightarrow> ustr" where
  \<comment> \<open>\<open>'\\u{0:04x}'.format(n)\<close> for \<open>n < 0x10000\<close>\<close>
  "u_escape n =
     [0x5C, 0x75, hex_digit (n div 4096 mod 16), hex_digit (n div 256 mod 16),
      hex_digit (n div 16 mod 16), hex_digit (n mod 16)]"

definition escape_char :: "nat \<Rightarrow> ustr" where
  "escape_char c =
     (if c = 0x5C then [0x5C, 0x5C]
      else if c = 0x22 then [0x5C, 0x22]
      else if c = 0x08 then [0x5C, 0x62]
      else if c = 0x0C then [0x5C, 0x66]
      else if c = 0x0A then [0x5C, 0x6E]
      else if c = 0x0D then [0x5C, 0x72]
      else if c = 0x09 then [0x5C, 0x74]
      else if 0x20 \<le> c \<and> c \<le> 0x7E then [c]
      else if c < 0x10000 then u_escape c
      else u_escape (0xD800 + (c - 0x10000) div 1024 mod 1024)
           @ u_escape (0xDC00 + (c - 0x10000) mod 1024))"

definition encode_basestring_ascii :: "ustr \<Rightarrow> ustr" where
  "encode_basestring_ascii s = 0x22 # concat (map escape_char s) @ [0x22]"

fun join :: "ustr \<Rightarrow> ustr list \<Rightarrow> ustr" where
  \<comment> \<open>\<open>sep.join(parts)\<close>\<close>
  "join sep [] = []"
| "join sep [x] = x"
| "join sep (x # y # ys) = x @ sep @ join sep (y # ys)"

fun dumps :: "json \<Rightarrow> ustr" where
  "dumps JNull = ascii ''null''"
| "dumps (JBool b) = (if b then ascii ''true'' else ascii ''false'')"
| "dumps (JInt i) = str_int i"
| "dumps (JStr s) = encode_basestring_ascii s"
| "dumps (JArr xs) = 0x5B # join (ascii '', '') (map dumps xs) @ [0x5D]"
| "dumps (JObj kvs) =
     0x7B # join (ascii '', '')
              (map (\<lambda>kv. encode_basestring_ascii (fst kv) @ ascii '': '' @ dumps (snd kv)) kvs)
       @ [0x7D]"

section \<open>The client\<close>

definition format_request :: "json \<Rightarrow> ustr" where
  \<comment> \<open>\<open>content_length\<close> is \<open>len(content)\<close>: the number of code points of the text\<close>
  "format_request payload =
     (let content = dumps payload;
          content_length = int (length content)
      in ascii ''Content-Length: '' @ str_int content_length
         @ [0x0D, 0x0A, 0x0D, 0x0A] @ content)"


subsection \<open>\<open>int(x)\<close>\<close>

text \<open>
  \<open>int\<close> of a text: surrounding ASCII whitespace is dropped, a sign may follow, then
  decimal digits, where single underscores may stand between digits. Anything else
  raises \<open>ValueError\<close>.
\<close>

definition is_space :: "nat \<Rightarrow> bool" where
  \<comment> \<open>space, \<open>\t \n \v \f \r\<close>\<close>
  "is_space c = (c = 32 \<or> (9 \<le> c \<and> c \<le> 13))"

definition is_digit :: "nat \<Rightarrow> bool" where
  "is_digit c = (48 \<le> c \<and> c \<le> 57)"

definition strip_spaces :: "nat list \<Rightarrow> nat list" where
  "strip_spaces s = rev (dropWhile is_space (rev (dropWhile is_space s)))"

fun no_double_underscore :: "nat list \<Rightarrow> bool" where
  "no_double_underscore (a # b # r) = (\<not> (a = 95 \<and> b = 95) \<and> no_double_underscore (b # r))"
| "no_double_underscore _ = True"

definition digits_ok :: "nat list \<Rightarrow> bool" where
  "digits_ok ds =
     (ds \<noteq> [] \<and> is_digit (hd ds) \<and> is_digit (last ds)
      \<and> list_all (\<lambda>c. is_digit c \<or> c = 95) ds \<and> no_double_underscore ds)"

definition digits_val :: "nat list \<Rightarrow> nat" where
  "digits_val ds = foldl (\<lambda>acc c. 10 * acc + (c - 48)) 0 (filter is_digit ds)"

definition int_of_text :: "nat list \<Rightarrow> exn + int" where
  "int_of_text s =
     (case strip_spaces s of
        [] \<Rightarrow> Inl ValueError
      | c # r \<Rightarrow>
          (let neg = (c = 45);
               ds = (if c = 45 \<or> c = 43 then r else c # r)
           in if digits_ok ds
              then Inr (if neg then - int (digits_val ds) else int (digits_val ds))
              else Inl ValueError))"

definition int_of_bytes :: "bytes \<Rightarrow> exn + int" where
  \<comment> \<open>\<open>int(b)\<close> for a \<open>bytes\<close> object\<close>
  "int_of_bytes b = int_of_text (map of_char b)"

text \<open>
  What the client is given from outside this module: the JSON parser, the behaviour of
  the registered callbacks, the event bus, a setting, and the Unicode tables that
  \<open>int\<close> applies to a \<open>str\<close> (which code points beyond ASCII are white space, and which
  are decimal digits of which value). A callback is a black box: \<open>truthy\<close> is its truth
  value, and \<open>call\<close> tells whether it returns or which exception it raises; what it may
  do to the client itself is not modelled.
\<close>

record 'h env =
  loads :: "ustr \<Rightarrow> exn + json"
  truthy :: "'h \<Rightarrow> bool"
  call :: "'h \<Rightarrow> json \<Rightarrow> exn option"
  publish :: "json \<Rightarrow> exn option"
  log_stderr :: bool
  uspace :: "nat \<Rightarrow> bool"
  udigit :: "nat \<Rightarrow> nat option"

definition int_of_str :: "'h env \<Rightarrow> ustr \<Rightarrow> exn + int" where
  \<comment> \<open>\<open>int(s)\<close> for a \<open>str\<close>: code points beyond ASCII are first mapped to a space, to
      an ASCII digit, or to \<open>?\<close>\<close>
  "int_of_str env s =
     int_of_text
       (map (\<lambda>c. if c < 127 then c
                 else if uspace env c then 32
                 else (case udigit env c of Some d \<Rightarrow> 48 + d | None \<Rightarrow> 63)) s)"

definition py_int :: "'h env \<Rightarrow> json \<Rightarrow> exn + int" where
  "py_int env v =
     (case v of
        JInt i \<Rightarrow> Inr i
      | JBool b \<Rightarrow> Inr (if b then 1 else 0)
      | JStr s \<Rightarrow> int_of_str env s
      | _ \<Rightarrow> Inl TypeError)"

subsection \<open>State\<close>

text \<open>
  The objects of \<open>.protocol\<close> as far as the client uses them: a request has a \<open>method\<close>
  and builds its payload from the identifier it is given; a notification has a
  \<open>method\<close> and a payload.
\<close>

record request =
  r_method :: ustr
  r_to_payload :: "int \<Rightarrow> json"

record notification =
  n_method :: ustr
  n_to_payload :: json

text \<open>
  Everything observable that the client does is appended to a trace: the calls of
  \<open>debug\<close> and \<open>printf\<close>, the invocations of registered handlers, the events published,
  and the signals sent to the process.
\<close>

datatype 'h event =
    Debug_request int ustr
  | Debug_notify ustr
  | Printf_client_died exn
  | Debug_got_json ustr
  | Printf_non_json ustr
  | Debug_got_error json
  | Debug_unknown_payload "(ustr \<times> json) list"
  | Printf_error_handling exn
  | Printf_stdout_ending
  | Debug_stdout_ended
  | Printf_stderr bytes
  | Printf_stderr_ending
  | Debug_stderr_ended
  | Debug_error_handling_response int
  | Debug_no_handler ustr
  | Debug_unhandled_request "json option"
  | Debug_unhandled_notification "json option"
  | Call 'h json
  | Publish "json option"
  | Terminate
  | Kill

text \<open>
  A readable channel of the process: the bytes it will still deliver, and what follows
  them, the end of the stream or a failure of the read.
\<close>

datatype chan_end = EOF | Broken

record chan =
  data :: bytes
  ending :: chan_end

datatype proc = Proc

text \<open>
  The attributes of the client (\<open>process\<close>, \<open>request_id\<close>, \<open>handlers\<close>), followed by
  the state of the process object they refer to and the trace.
\<close>

record 'h client =
  process :: "proc option"
  request_id :: int
  handlers :: "int \<rightharpoonup> 'h"
  stdin_data :: bytes
  stdin_broken :: bool
  stdout_ch :: chan
  stderr_ch :: chan
  trace :: "'h event list"

definition emit :: "'h event \<Rightarrow> 'h client \<Rightarrow> 'h client" where
  "emit e c = c\<lparr>trace := trace c @ [e]\<rparr>"

definition init :: "bool \<Rightarrow> chan \<Rightarrow> chan \<Rightarrow> 'h client" where
  \<comment> \<open>\<open>Client(process, project_path)\<close> once \<open>__init__\<close> has returned\<close>
  "init broken out err =
     \<lparr>process = Some Proc, request_id = 0, handlers = Map.empty,
      stdin_data = [], stdin_broken = broken, stdout_ch = out, stderr_ch = err,
      trace = []\<rparr>"

subsection \<open>Sending\<close>

definition send_payload :: "'h client \<Rightarrow> json \<Rightarrow> exn option \<times> 'h client" where
  "send_payload c payload =
     (let message = format_request payload in
      case (case process c of
              None \<Rightarrow> Inl AttributeError
            | Some _ \<Rightarrow>
                (case utf8_encode message of
                   Inl e \<Rightarrow> Inl e
                 | Inr b \<Rightarrow> if stdin_broken c then Inl BrokenPipeError else Inr b)) of
        Inr b \<Rightarrow> (None, c\<lparr>stdin_data := stdin_data c @ b\<rparr>)
      | Inl e \<Rightarrow>
          if is_BrokenPipeError e then (None, emit (Printf_client_died e) c)
          else (Some e, c))"

definition send_request :: "'h client \<Rightarrow> request \<Rightarrow> 'h option \<Rightarrow> exn option \<times> 'h client" where
  "send_request c request handler =
     (let c1 = c\<lparr>request_id := request_id c + 1\<rparr>;
          c2 = emit (Debug_request (request_id c1) (r_method request)) c1;
          c3 = (case handler of
                  None \<Rightarrow> c2
                | Some h \<Rightarrow> c2\<lparr>handlers := (handlers c2)(request_id c2 \<mapsto> h)\<rparr>)
      in send_payload c3 (r_to_payload request (request_id c3)))"

definition send_notification :: "'h client \<Rightarrow> notification \<Rightarrow> exn option \<times> 'h client" where
  "send_notification c notification =
     send_payload (emit (Debug_notify (n_method notification)) c) (n_to_payload notification)"

definition kill :: "'h client \<Rightarrow> exn option \<times> 'h client" where
  "kill c = (case process c of None \<Rightarrow> (Some AttributeError, c) | Some _ \<Rightarrow> (None, emit Kill c))"

subsection \<open>Dispatching a decoded message\<close>

definition has_key :: "(ustr \<times> json) list \<Rightarrow> string \<Rightarrow> bool" where
  \<comment> \<open>\<open>key in d\<close>\<close>
  "has_key d k = (map_of d (ascii k) \<noteq> None)"

definition get :: "(ustr \<times> json) list \<Rightarrow> string \<Rightarrow> json option" where
  \<comment> \<open>\<open>d.get(key)\<close>; \<open>None\<close> of the model is Python's \<open>None\<close> for an absent key\<close>
  "get d k = map_of d (ascii k)"

definition or_null :: "json option \<Rightarrow> json" where
  "or_null v = (case v of None \<Rightarrow> JNull | Some x \<Rightarrow> x)"

definition response_handler :: "'h env \<Rightarrow> 'h client \<Rightarrow> (ustr \<times> json) list \<Rightarrow> exn option \<times> 'h client" where
  "response_handler env c response =
     (case py_int env (or_null (get response ''id'')) of
        Inl e \<Rightarrow> (Some UnboundLocalError, c)
      | Inr handler_id \<Rightarrow>
          (let result = or_null (get response ''result'') in
           case handlers c handler_id of
             None \<Rightarrow> (Some KeyError, emit (Debug_error_handling_response handler_id) c)
           | Some h \<Rightarrow>
               if truthy env h then
                 (case call env h result of
                    None \<Rightarrow> (None, emit (Call h result) c)
                  | Some e \<Rightarrow>
                      (Some e, emit (Debug_error_handling_response handler_id)
                                 (emit (Call h result) c)))
               else
                 (case get response ''id'' of
                    Some (JStr s) \<Rightarrow> (None, emit (Debug_no_handler s) c)
                  | _ \<Rightarrow> (Some TypeError, emit (Debug_error_handling_response handler_id) c))))"

definition request_handler :: "'h client \<Rightarrow> (ustr \<times> json) list \<Rightarrow> exn option \<times> 'h client" where
  "request_handler c request =
     (let method = get request ''method'' in
      if method = Some (JStr (ascii ''workspace/applyEdit'')) then (Some NameError, c)
      else (None, emit (Debug_unhandled_request method) c))"

definition notification_handler :: "'h env \<Rightarrow> 'h client \<Rightarrow> (ustr \<times> json) list \<Rightarrow> exn option \<times> 'h client" where
  "notification_handler env c response =
     (let method = get response ''method'' in
      if method = Some (JStr (ascii ''textDocument/publishDiagnostics'')) then
        (publish env (or_null (get response ''params'')),
         emit (Publish (get response ''params'')) c)
      else if method = Some (JStr (ascii ''window/showMessage'')) then (Some NameError, c)
      else if method = Some (JStr (ascii ''window/logMessage'')) then (Some NameError, c)
      else (None, emit (Debug_unhandled_notification method) c))"

definition dispatch :: "'h env \<Rightarrow> 'h client \<Rightarrow> (ustr \<times> json) list \<Rightarrow> exn option \<times> 'h client" where
  \<comment> \<open>the body of the second \<open>try\<close> of \<open>read_stdout\<close>\<close>
  "dispatch env c payload =
     (if has_key payload ''error'' then
        (Some NameError, emit (Debug_got_error (or_null (get payload ''error''))) c)
      else if has_key payload ''method'' then
        (if has_key payload ''id'' then request_handler c payload
         else notification_handler env c payload)
      else if has_key payload ''id'' then response_handler env c payload
      else (None, emit (Debug_unknown_payload payload) c))"

definition handle_payload :: "'h env \<Rightarrow> 'h client \<Rightarrow> (ustr \<times> json) list \<Rightarrow> 'h client" where
  \<comment> \<open>the second \<open>try\<close> with its \<open>except Exception\<close>\<close>
  "handle_payload env c payload =
     (case dispatch env c payload of
        (None, c') \<Rightarrow> c'
      | (Some err, c') \<Rightarrow> emit (Printf_error_handling err) c')"

subsection \<open>Reading\<close>

definition readline :: "chan \<Rightarrow> exn + (bytes \<times> chan)" where
  "readline ch =
     (case dropWhile (\<lambda>b. b \<noteq> CHR 0x0A) (data ch) of
        nl # r \<Rightarrow> Inr (takeWhile (\<lambda>b. b \<noteq> CHR 0x0A) (data ch) @ [nl], ch\<lparr>data := r\<rparr>)
      | [] \<Rightarrow>
          (case ending ch of
             EOF \<Rightarrow> Inr (data ch, ch\<lparr>data := []\<rparr>)
           | Broken \<Rightarrow> Inl IOError))"

definition read :: "chan \<Rightarrow> nat \<Rightarrow> exn + (bytes \<times> chan)" where
  "read ch n =
     (if n \<le> length (data ch) then Inr (take n (data ch), ch\<lparr>data := drop n (data ch)\<rparr>)
      else (case ending ch of
              EOF \<Rightarrow> Inr (data ch, ch\<lparr>data := []\<rparr>)
            | Broken \<Rightarrow> Inl IOError))"

definition strip :: "bytes \<Rightarrow> bytes" where
  "strip b =
     rev (dropWhile (\<lambda>x. is_space (of_char x)) (rev (dropWhile (\<lambda>x. is_space (of_char x)) b)))"

definition startswith :: "bytes \<Rightarrow> bytes \<Rightarrow> bool" where
  "startswith b p = (take (length p) b = p)"

definition ContentLengthHeader :: bytes where
  "ContentLengthHeader = ''Content-Length: ''"

lemma readline_at_end:
  assumes "readline ch = Inr (line, ch')" and "line \<noteq> []"
    and "dropWhile (\<lambda>b. b \<noteq> CHR 0x0A) (data ch) = []"
  shows "length (data ch') < length (data ch)"
  using assms unfolding readline_def
  by (cases "ending ch") (simp_all, force)

lemma readline_at_newline:
  assumes "readline ch = Inr (line, ch')"
    and "dropWhile (\<lambda>b. b \<noteq> CHR 0x0A) (data ch) = nl # r"
  shows "data ch' = r"
  using assms unfolding readline_def
  by force

lemma readline_shorter:
  assumes "readline ch = Inr (line, ch')" and "strip line \<noteq> []"
  shows "length (data ch') < length (data ch)"
proof (cases "dropWhile (\<lambda>b. b \<noteq> CHR 0x0A) (data ch)")
  case Nil
  from assms(2) have "line \<noteq> []" by (auto simp: strip_def)
  then show ?thesis by (rule readline_at_end [OF assms(1) _ Nil])
next
  case (Cons nl r)
  have "length (dropWhile (\<lambda>b. b \<noteq> CHR 0x0A) (data ch)) \<le> length (data ch)"
    by (rule length_dropWhile_le)
  then have "length r < length (data ch)" by (simp add: Cons)
  then show ?thesis by (simp add: readline_at_newline [OF assms(1) Cons])
qed

function read_headers :: "chan \<Rightarrow> int \<Rightarrow> (exn + int) \<times> chan" where
  "read_headers ch content_length =
     (case readline ch of
        Inl e \<Rightarrow> (Inl e, ch)
      | Inr (line, ch') \<Rightarrow>
          (let header = strip line;
               in_headers = (length header \<noteq> 0)
           in case (if startswith header ContentLengthHeader
                    then int_of_bytes (drop (length ContentLengthHeader) header)
                    else Inr content_length) of
                Inl e \<Rightarrow> (Inl e, ch')
              | Inr content_length' \<Rightarrow>
                  if in_headers then read_headers ch' content_length'
                  else (Inr content_length', ch')))"
  by pat_completeness auto
termination
proof (relation "measure (\<lambda>(ch, n). length (data ch))")
  fix ch :: chan and content_length :: int and x2 x y xa xb x2a
  assume "readline ch = Inr x2" "(x, y) = x2" "xa = strip x" "xb = (length xa \<noteq> 0)" "xb"
  then have "readline ch = Inr (x, y)" and "strip x \<noteq> []" by simp_all
  then have "length (data y) < length (data ch)" by (rule readline_shorter)
  then show "((y, x2a), ch, content_length) \<in> measure (\<lambda>(ch, n). length (data ch))"
    by simp
qed simp

declare read_headers.simps [simp del]

datatype flow = Continue | Return | Raise exn

definition read_message :: "'h client \<Rightarrow> (exn + ustr option) \<times> 'h client" where
  \<comment> \<open>the headers and the body of one message; \<open>None\<close> when no body is read\<close>
  "read_message c =
     (case process c of
        None \<Rightarrow> (Inl AttributeError, c)
      | Some _ \<Rightarrow>
          (case read_headers (stdout_ch c) 0 of
             (Inl e, ch) \<Rightarrow> (Inl e, c\<lparr>stdout_ch := ch\<rparr>)
           | (Inr content_length, ch) \<Rightarrow>
               if content_length > 0 then
                 (case read ch (nat content_length) of
                    Inl e \<Rightarrow> (Inl e, c\<lparr>stdout_ch := ch\<rparr>)
                  | Inr (b, ch') \<Rightarrow>
                      (case utf8_decode b of
                         Inl e \<Rightarrow> (Inl e, c\<lparr>stdout_ch := ch'\<rparr>)
                       | Inr content \<Rightarrow> (Inr (Some content), c\<lparr>stdout_ch := ch'\<rparr>)))
               else (Inr None, c\<lparr>stdout_ch := ch\<rparr>)))"

definition noted :: "'h client \<Rightarrow> (ustr \<times> json) list \<Rightarrow> ustr \<Rightarrow> 'h client" where
  \<comment> \<open>the \<open>debug("got json: ", ...)\<close> of the first \<open>try\<close>, with at most 200 characters\<close>
  "noted c d content =
     (if get d ''method'' \<noteq> Some (JStr (ascii ''window/logMessage''))
      then emit (Debug_got_json (take 200 content)) c else c)"

definition parse_and_dispatch :: "'h env \<Rightarrow> 'h client \<Rightarrow> ustr \<Rightarrow> exn option \<times> 'h client" where
  \<comment> \<open>from \<open>payload = None\<close> to the end of the second \<open>try\<close>; the result is the
      exception that leaves this part, if any. A payload that is not a dictionary has
      no \<open>get\<close>\<close>
  "parse_and_dispatch env c content =
     (case loads env content of
        Inl e \<Rightarrow>
          if is_IOError e then (None, emit (Printf_non_json content) c) else (Some e, c)
      | Inr payload \<Rightarrow>
          (case payload of
             JObj d \<Rightarrow> (None, handle_payload env (noted c d content) d)
           | _ \<Rightarrow> (Some AttributeError, c)))"

definition stdout_iteration :: "'h env \<Rightarrow> 'h client \<Rightarrow> flow \<times> 'h client" where
  \<comment> \<open>one pass through the body of the \<open>while\<close> of \<open>read_stdout\<close>\<close>
  "stdout_iteration env c =
     (case (case read_message c of
              (Inl e, c1) \<Rightarrow> (Some e, c1)
            | (Inr None, c1) \<Rightarrow> (None, c1)
            | (Inr (Some content), c1) \<Rightarrow> parse_and_dispatch env c1 content) of
        (None, c2) \<Rightarrow> (Continue, c2)
      | (Some e, c2) \<Rightarrow>
          if is_IOError e then
            (case process c2 of
               None \<Rightarrow> (Raise AttributeError, emit Printf_stdout_ending c2)
             | Some _ \<Rightarrow>
                 (Return, (emit Terminate (emit Printf_stdout_ending c2))\<lparr>process := None\<rparr>))
          else (Raise e, c2))"

datatype exit = Ended | Returned | Raised exn

text \<open>
  The loops run while \<open>self.process.poll()\<close> answers \<open>None\<close>. The number of times it
  will do so before it reports the exit of the process is an argument of the model.
\<close>

fun read_stdout :: "'h env \<Rightarrow> nat \<Rightarrow> 'h client \<Rightarrow> exit \<times> 'h client" where
  "read_stdout env 0 c =
     (case process c of
        None \<Rightarrow> (Raised AttributeError, c)
      | Some _ \<Rightarrow> (Ended, emit Debug_stdout_ended c))"
| "read_stdout env (Suc n) c =
     (case process c of
        None \<Rightarrow> (Raised AttributeError, c)
      | Some _ \<Rightarrow>
          (case stdout_iteration env c of
             (Continue, c') \<Rightarrow> read_stdout env n c'
           | (Return, c') \<Rightarrow> (Returned, c')
           | (Raise e, c') \<Rightarrow> (Raised e, c')))"

definition stderr_iteration :: "'h env \<Rightarrow> 'h client \<Rightarrow> flow \<times> 'h client" where
  "stderr_iteration env c =
     (case process c of
        None \<Rightarrow> (Raise AttributeError, c)
      | Some _ \<Rightarrow>
          (case readline (stderr_ch c) of
             Inl e \<Rightarrow>
               if is_IOError e then (Return, emit Printf_stderr_ending c) else (Raise e, c)
           | Inr (content, ch) \<Rightarrow>
               (Continue,
                if log_stderr env \<and> length content > 0
                then emit (Printf_stderr (strip content)) (c\<lparr>stderr_ch := ch\<rparr>)
                else c\<lparr>stderr_ch := ch\<rparr>)))"

fun read_stderr :: "'h env \<Rightarrow> nat \<Rightarrow> 'h client \<Rightarrow> exit \<times> 'h client" where
  "read_stderr env 0 c =
     (case process c of
        None \<Rightarrow> (Raised AttributeError, c)
      | Some _ \<Rightarrow> (Ended, emit Debug_stderr_ended c))"
| "read_stderr env (Suc n) c =
     (case process c of
        None \<Rightarrow> (Raised AttributeError, c)
      | Some _ \<Rightarrow>
          (case stderr_iteration env c of
             (Continue, c') \<Rightarrow> read_stderr env n c'
           | (Return, c') \<Rightarrow> (Returned, c')
           | (Raise e, c') \<Rightarrow> (Raised e, c')))"

section \<open>\<open>json.loads\<close>\<close>

definition is_ws :: "nat \<Rightarrow> bool" where
  "is_ws c = (c = 0x20 \<or> c = 0x09 \<or> c = 0x0A \<or> c = 0x0D)"

definition skip_ws :: "ustr \<Rightarrow> ustr" where
  "skip_ws s = dropWhile is_ws s"

definition hex_val :: "nat \<Rightarrow> nat option" where
  "hex_val c =
     (if 48 \<le> c \<and> c \<le> 57 then Some (c - 48)
      else if 97 \<le> c \<and> c \<le> 102 then Some (c - 87)
      else if 65 \<le> c \<and> c \<le> 70 then Some (c - 55)
      else None)"

definition hex4 :: "ustr \<Rightarrow> nat option" where
  \<comment> \<open>the four hexadecimal digits after \<open>\u\<close>\<close>
  "hex4 s =
     (if length s < 4 then None
      else (case hex_val (s ! 0) of None \<Rightarrow> None | Some w \<Rightarrow>
           (case hex_val (s ! 1) of None \<Rightarrow> None | Some x \<Rightarrow>
           (case hex_val (s ! 2) of None \<Rightarrow> None | Some y \<Rightarrow>
           (case hex_val (s ! 3) of None \<Rightarrow> None | Some z \<Rightarrow>
              Some (((w * 16 + x) * 16 + y) * 16 + z))))))"

definition unescape :: "nat \<Rightarrow> nat option" where
  "unescape e =
     (if e = 0x22 \<or> e = 0x5C \<or> e = 0x2F then Some e
      else if e = 0x62 then Some 0x08
      else if e = 0x66 then Some 0x0C
      else if e = 0x6E then Some 0x0A
      else if e = 0x72 then Some 0x0D
      else if e = 0x74 then Some 0x09
      else None)"

definition scan_char :: "nat \<Rightarrow> ustr \<Rightarrow> (nat \<times> nat) option" where
  \<comment> \<open>one character of a string literal that starts with \<open>c\<close> and goes on with \<open>r\<close>:
      the character meant, and how much of \<open>r\<close> belongs to it\<close>
  "scan_char c r =
     (if c = 0x5C then
        (case r of
           [] \<Rightarrow> None
         | e # r1 \<Rightarrow>
             if e = 0x75 then
               (case hex4 r1 of
                  None \<Rightarrow> None
                | Some uni \<Rightarrow>
                    if 0xD800 \<le> uni \<and> uni \<le> 0xDBFF \<and> take 2 (drop 4 r1) = [0x5C, 0x75] then
                      (case hex4 (drop 6 r1) of
                         None \<Rightarrow> None
                       | Some uni2 \<Rightarrow>
                           if 0xDC00 \<le> uni2 \<and> uni2 \<le> 0xDFFF
                           then Some (0x10000 + (uni - 0xD800) * 1024 + (uni2 - 0xDC00), 11)
                           else Some (uni, 5))
                    else Some (uni, 5))
             else (case unescape e of None \<Rightarrow> None | Some x \<Rightarrow> Some (x, 1)))
      else if c < 0x20 then None
      else Some (c, 0))"

function scanstring :: "ustr \<Rightarrow> (ustr \<times> ustr) option" where
  "scanstring [] = None"
| "scanstring (c # r) =
     (if c = 0x22 then Some ([], r)
      else (case scan_char c r of
              None \<Rightarrow> None
            | Some (x, n) \<Rightarrow>
                (case scanstring (drop n r) of
                   None \<Rightarrow> None
                 | Some (s, rest) \<Rightarrow> Some (x # s, rest))))"
  by pat_completeness auto
termination
  by (relation "measure length") simp_all


text \<open>
  A number is \<open>-?(0|[1-9][0-9]*)\<close>; when a fraction or an exponent follows, Python reads
  a float, which the model does not have.
\<close>

definition float_follows :: "ustr \<Rightarrow> bool" where
  "float_follows r =
     (case r of
        [] \<Rightarrow> False
      | c # r1 \<Rightarrow>
          if c = 0x2E then (case r1 of [] \<Rightarrow> False | d # _ \<Rightarrow> is_digit d)
          else if c = 0x65 \<or> c = 0x45 then
            (case r1 of
               [] \<Rightarrow> False
             | d # r2 \<Rightarrow>
                 if d = 0x2B \<or> d = 0x2D then (case r2 of [] \<Rightarrow> False | d' # _ \<Rightarrow> is_digit d')
                 else is_digit d)
          else False)"

definition scan_nat :: "ustr \<Rightarrow> (nat \<times> ustr) option" where
  \<comment> \<open>\<open>0|[1-9][0-9]*\<close>\<close>
  "scan_nat s =
     (case s of
        [] \<Rightarrow> None
      | d # r \<Rightarrow>
          if d = 48 then Some (0, r)
          else if 49 \<le> d \<and> d \<le> 57
          then Some (digits_val (d # takeWhile is_digit r), dropWhile is_digit r)
          else None)"

definition scan_number :: "ustr \<Rightarrow> (exn + json \<times> ustr) option" where
  \<comment> \<open>\<open>None\<close> when the text does not start with a number\<close>
  "scan_number s =
     (let neg = (take 1 s = [0x2D]) in
      case scan_nat (if neg then drop 1 s else s) of
        None \<Rightarrow> None
      | Some (n, r) \<Rightarrow>
          if float_follows r then Some (Inl Float_unmodelled)
          else Some (Inr (JInt (if neg then - int n else int n), r)))"

definition starts :: "ustr \<Rightarrow> string \<Rightarrow> bool" where
  "starts s p = (take (length p) s = ascii p)"

fun dict_set :: "(ustr \<times> json) list \<Rightarrow> ustr \<Rightarrow> json \<Rightarrow> (ustr \<times> json) list" where
  \<comment> \<open>\<open>d[k] = v\<close>: a key keeps its place\<close>
  "dict_set [] k v = [(k, v)]"
| "dict_set ((k', v') # d) k v = (if k' = k then (k, v) # d else (k', v') # dict_set d k v)"

fun scan_once :: "nat \<Rightarrow> ustr \<Rightarrow> exn + json \<times> ustr"
  and scan_items :: "nat \<Rightarrow> ustr \<Rightarrow> json list \<Rightarrow> exn + json \<times> ustr"
  and scan_pairs :: "nat \<Rightarrow> ustr \<Rightarrow> (ustr \<times> json) list \<Rightarrow> exn + json \<times> ustr" where
  "scan_once 0 s = Inl RecursionError"
| "scan_once (Suc n) s =
     (case s of
        [] \<Rightarrow> Inl JSONDecodeError
      | c # r \<Rightarrow>
          if c = 0x22 then
            (case scanstring r of
               None \<Rightarrow> Inl JSONDecodeError
             | Some (str, rest) \<Rightarrow> Inr (JStr str, rest))
          else if c = 0x7B then
            (case skip_ws r of
               [] \<Rightarrow> Inl JSONDecodeError
             | d # r1 \<Rightarrow>
                 if d = 0x7D then Inr (JObj [], r1)
                 else if d = 0x22 then scan_pairs n r1 []
                 else Inl JSONDecodeError)
          else if c = 0x5B then
            (case skip_ws r of
               [] \<Rightarrow> Inl JSONDecodeError
             | d # r1 \<Rightarrow>
                 if d = 0x5D then Inr (JArr [], r1) else scan_items n (d # r1) [])
          else if starts s ''null'' then Inr (JNull, drop 4 s)
          else if starts s ''true'' then Inr (JBool True, drop 4 s)
          else if starts s ''false'' then Inr (JBool False, drop 5 s)
          else
            (case scan_number s of
               Some r \<Rightarrow> r
             | None \<Rightarrow>
                 if starts s ''NaN'' \<or> starts s ''Infinity'' \<or> starts s ''-Infinity''
                 then Inl Float_unmodelled
                 else Inl JSONDecodeError))"
| "scan_items 0 s acc = Inl RecursionError"
| "scan_items (Suc n) s acc =
     (case scan_once n s of
        Inl e \<Rightarrow> Inl e
      | Inr (v, r) \<Rightarrow>
          (case skip_ws r of
             [] \<Rightarrow> Inl JSONDecodeError
           | d # r1 \<Rightarrow>
               if d = 0x5D then Inr (JArr (acc @ [v]), r1)
               else if d = 0x2C then scan_items n (skip_ws r1) (acc @ [v])
               else Inl JSONDecodeError))"
| "scan_pairs 0 s acc = Inl RecursionError"
| "scan_pairs (Suc n) s acc =
     (case scanstring s of
        None \<Rightarrow> Inl JSONDecodeError
      | Some (key, r) \<Rightarrow>
          (case skip_ws r of
             [] \<Rightarrow> Inl JSONDecodeError
           | d # r1 \<Rightarrow>
               if d \<noteq> 0x3A then Inl JSONDecodeError
               else
                 (case scan_once n (skip_ws r1) of
                    Inl e \<Rightarrow> Inl e
                  | Inr (v, r2) \<Rightarrow>
                      (case skip_ws r2 of
                         [] \<Rightarrow> Inl JSONDecodeError
                       | d' # r3 \<Rightarrow>
                           if d' = 0x7D then Inr (JObj (dict_set acc key v), r3)
                           else if d' = 0x2C then
                             (case skip_ws r3 of
                                [] \<Rightarrow> Inl JSONDecodeError
                              | q # r4 \<Rightarrow>
                                  if q = 0x22 then scan_pairs n r4 (dict_set acc key v)
                                  else Inl JSONDecodeError)
                           else Inl JSONDecodeError))))"

definition json_loads :: "ustr \<Rightarrow> exn + json" where
  "json_loads s =
     (if take 1 s = [0xFEFF] then Inl JSONDecodeError
      else (case scan_once (Suc (Suc (length s + length s))) (skip_ws s) of
              Inl e \<Rightarrow> Inl e
            | Inr (v, r) \<Rightarrow> if skip_ws r = [] then Inr v else Inl JSONDecodeError))"


section \<open>Sequences of calls and arrivals\<close>

text \<open>
  What happens to a client over time: the caller sends requests and notifications, and
  the reader hands decoded messages to the dispatcher.
\<close>

datatype 'h op =
    Send request "'h option"
  | Notify notification
  | Receive "(ustr \<times> json) list"

fun run :: "'h env \<Rightarrow> 'h client \<Rightarrow> 'h op list \<Rightarrow> 'h client" where
  "run env c [] = c"
| "run env c (Send r h # ops) = run env (snd (send_request c r h)) ops"
| "run env c (Notify n # ops) = run env (snd (send_notification c n)) ops"
| "run env c (Receive d # ops) = run env (handle_payload env c d) ops"

definition is_call :: "'h event \<Rightarrow> bool" where
  "is_call e = (case e of Call h r \<Rightarrow> True | _ \<Rightarrow> False)"

definition calls :: "'h event list \<Rightarrow> 'h event list" where
  \<comment> \<open>the invocations of handlers in a trace\<close>
  "calls t = filter is_call t"

definition request_ids :: "'h event list \<Rightarrow> int list" where
  \<comment> \<open>the identifiers that \<open>send_request\<close> has assigned, in order\<close>
  "request_ids t = concat (map (\<lambda>e. case e of Debug_request i m \<Rightarrow> [i] | _ \<Rightarrow> []) t)"

definition is_send :: "'h op \<Rightarrow> bool" where
  "is_send x = (case x of Send r h \<Rightarrow> True | _ \<Rightarrow> False)"

definition is_response :: "(ustr \<times> json) list \<Rightarrow> bool" where
  \<comment> \<open>a message that \<open>read_stdout\<close> hands to \<open>response_handler\<close>\<close>
  "is_response d = (\<not> has_key d ''error'' \<and> \<not> has_key d ''method'' \<and> has_key d ''id'')"

definition sends :: "(request \<times> 'h) list \<Rightarrow> 'h op list" where
  \<comment> \<open>one request after the other, each with its handler\<close>
  "sends reqs = map (\<lambda>rh. Send (fst rh) (Some (snd rh))) reqs"

definition rest :: "'h client \<Rightarrow> 'h client" where
  \<comment> \<open>the client without its trace\<close>
  "rest c = c\<lparr>trace := []\<rparr>"

subsection \<open>An environment and messages for examples\<close>

text \<open>
  The examples run with the parser of the previous section, with handlers that are
  ordinary functions and return, and with empty Unicode tables.
\<close>

definition example_request :: "string \<Rightarrow> json \<Rightarrow> request" where
  \<comment> \<open>Modelled from the spec: \<open>Request\<close> of \<open>.protocol\<close> is not among the sources; an
      outbound request is said to have the members \<open>method\<close>, \<open>params\<close> and \<open>id\<close>\<close>
  "example_request m params =
     \<lparr>r_method = ascii m,
      r_to_payload =
        (\<lambda>i. JObj [(ascii ''jsonrpc'', JStr (ascii ''2.0'')), (ascii ''id'', JInt i),
                   (ascii ''method'', JStr (ascii m)), (ascii ''params'', params)])\<rparr>"

definition plain_env :: "nat env" where
  "plain_env =
     \<lparr>loads = json_loads, truthy = (\<lambda>h. True), call = (\<lambda>h r. None), publish = (\<lambda>p. None),
      log_stderr = True, uspace = (\<lambda>c. False), udigit = (\<lambda>c. None)\<rparr>"

definition silent :: chan where
  "silent = \<lparr>data = [], ending = EOF\<rparr>"

definition reply :: "int \<Rightarrow> (ustr \<times> json) list" where
  "reply i = [(ascii ''id'', JInt i), (ascii ''result'', JArr [JInt i])]"

definition error_reply :: "int \<Rightarrow> (ustr \<times> json) list" where
  \<comment> \<open>\<open>{"id": i, "error": {"code": -32601, "message": "no"}}\<close>\<close>
  "error_reply i =
     [(ascii ''id'', JInt i),
      (ascii ''error'', JObj [(ascii ''code'', JInt (- 32601)), (ascii ''message'', JStr (ascii ''no''))])]"

definition initialize_sent :: "nat client" where
  \<comment> \<open>a fresh client that has sent one request, \<open>initialize\<close>, with handler 7\<close>
  "initialize_sent =
     snd (send_request (init False silent silent) (example_request ''initialize'' JNull) (Some 7))"

definition result_for_1 :: "(ustr \<times> json) list" where
  \<comment> \<open>\<open>{"id": 1, "result": {}}\<close>\<close>
  "result_for_1 = [(ascii ''id'', JInt 1), (ascii ''result'', JObj [])]"

definition error_for_1 :: "(ustr \<times> json) list" where
  \<comment> \<open>\<open>{"id": 1, "error": {"code": -32601, "message": "no"}}\<close>\<close>
  "error_for_1 =
     [(ascii ''id'', JInt 1),
      (ascii ''error'', JObj [(ascii ''code'', JInt (- 32601)), (ascii ''message'', JStr (ascii ''no''))])]"

definition error_in_result_for_1 :: "(ustr \<times> json) list" where
  \<comment> \<open>\<open>{"id": 1, "result": {"error": "no"}}\<close>\<close>
  "error_in_result_for_1 =
     [(ascii ''id'', JInt 1), (ascii ''result'', JObj [(ascii ''error'', JStr (ascii ''no''))])]"

definition three_sent :: "nat client" where
  \<comment> \<open>a fresh client that has sent three requests, with the handlers 10, 20 and 30\<close>
  "three_sent =
     run plain_env (init False silent silent)
       (sends [(example_request ''initialize'' JNull, 10),
               (example_request ''textDocument/hover'' JNull, 20),
               (example_request ''shutdown'' JNull, 30)])"

definition result_for_string_3 :: "(ustr \<times> json) list" where
  \<comment> \<open>\<open>{"id": "3", "result": true}\<close>\<close>
  "result_for_string_3 = [(ascii ''id'', JStr (ascii ''3'')), (ascii ''result'', JBool True)]"

subsection \<open>Messages on the channel\<close>

definition miss_log :: "'h env \<Rightarrow> (ustr \<times> json) list \<Rightarrow> ustr \<Rightarrow> 'h event list" where
  \<comment> \<open>what is logged for a response whose identifier has no entry\<close>
  "miss_log env d content =
     Debug_got_json (take 200 content)
     # (if has_key d ''error''
        then [Debug_got_error (or_null (get d ''error'')), Printf_error_handling NameError]
        else (case py_int env (or_null (get d ''id'')) of
                Inl e \<Rightarrow> [Printf_error_handling UnboundLocalError]
              | Inr i \<Rightarrow> [Debug_error_handling_response i, Printf_error_handling KeyError]))"

definition crlf :: bytes where
  "crlf = [CHR 0x0D, CHR 0x0A]"

definition frame :: "bytes \<Rightarrow> bytes" where
  \<comment> \<open>a body as the other side puts it on the channel\<close>
  "frame body = ContentLengthHeader @ map char_of (dec_nat (length body)) @ crlf @ crlf @ body"

definition listening :: "bytes \<Rightarrow> nat client" where
  \<comment> \<open>the client that has sent \<open>initialize\<close> and whose process will write the given bytes\<close>
  "listening b = initialize_sent\<lparr>stdout_ch := \<lparr>data = b, ending = EOF\<rparr>\<rparr>"

definition body_result_99 :: bytes where
  "body_result_99 = ''{\"id\": 99, \"result\": null}''"

definition body_result_1 :: bytes where
  "body_result_1 = ''{\"id\": 1, \"result\": {}}''"

definition body_not_json :: bytes where
  "body_not_json = ''not json''"

definition result_for_99 :: "(ustr \<times> json) list" where
  "result_for_99 = [(ascii ''id'', JInt 99), (ascii ''result'', JNull)]"

definition failing :: "bytes \<Rightarrow> nat client" where
  \<comment> \<open>the client that has sent \<open>initialize\<close>; reading the protocol channel fails, and the
      diagnostic channel will deliver the given bytes\<close>
  "failing b =
     initialize_sent\<lparr>stdout_ch := \<lparr>data = [], ending = Broken\<rparr>,
                      stderr_ch := \<lparr>data = b, ending = EOF\<rparr>\<rparr>"

definition failed :: "bytes \<Rightarrow> nat client" where
  \<comment> \<open>the same client once \<open>read_stdout\<close> has left through its \<open>except IOError\<close>\<close>
  "failed b = (emit Terminate (emit Printf_stdout_ending (failing b)))\<lparr>process := None\<rparr>"

definition did_open :: "(ustr \<times> json) list" where
  \<comment> \<open>a notification whose text holds \<open>e\<close> with an acute accent, an emoji beyond the basic
      plane, a quote, a backslash and a line feed\<close>
  "did_open =
     [(ascii ''jsonrpc'', JStr (ascii ''2.0'')),
      (ascii ''method'', JStr (ascii ''textDocument/didOpen'')),
      (ascii ''params'',
       JObj [(ascii ''text'', JStr [0x63, 0x61, 0x66, 0xE9, 0x20, 0x1F600, 0x22, 0x5C, 0x0A]),
             (ascii ''version'', JInt (- 3)),
             (ascii ''tags'', JArr [JNull, JBool True, JArr [], JObj []])])]"

definition did_open_bytes :: bytes where
  \<comment> \<open>what \<open>send_payload\<close> writes for this notification\<close>
  "did_open_bytes = map char_of (format_request (JObj did_open))"

subsection \<open>Payloads that the serialiser and the parser agree on\<close>

text \<open>
  A payload is well formed when its strings hold code points only, no high surrogate
  directly before a low one (the serialiser writes the two as two \<open>\u\<close> escapes, which the
  parser reads as one character), and when the keys of each dictionary are distinct, as
  they are in a Python \<open>dict\<close>. The remaining definitions describe the text that the
  serialiser writes, for the proof that the parser reads it back.
\<close>

definition high_surrogate :: "nat \<Rightarrow> bool" where
  "high_surrogate c = (0xD800 \<le> c \<and> c \<le> 0xDBFF)"

definition low_surrogate :: "nat \<Rightarrow> bool" where
  "low_surrogate c = (0xDC00 \<le> c \<and> c \<le> 0xDFFF)"

fun wf_str :: "ustr \<Rightarrow> bool" where
  "wf_str [] = True"
| "wf_str [c] = (c < 0x110000)"
| "wf_str (a # b # r) =
     (a < 0x110000 \<and> \<not> (high_surrogate a \<and> low_surrogate b) \<and> wf_str (b # r))"

definition hex_digits :: "nat \<Rightarrow> ustr" where
  "hex_digits n =
     [hex_digit (n div 4096 mod 16), hex_digit (n div 256 mod 16),
      hex_digit (n div 16 mod 16), hex_digit (n mod 16)]"

definition joins :: "ustr \<Rightarrow> bool" where
  \<comment> \<open>the text goes on with a \<open>\u\<close> escape that a high surrogate before it would take as
      its second half\<close>
  "joins t =
     (take 2 t = [0x5C, 0x75]
      \<and> (case hex4 (drop 2 t) of None \<Rightarrow> True | Some u \<Rightarrow> low_surrogate u))"

definition ends_value :: "ustr \<Rightarrow> bool" where
  \<comment> \<open>what may follow a value: nothing, a comma, or a closing bracket or brace\<close>
  "ends_value t = (case t of [] \<Rightarrow> True | c # _ \<Rightarrow> c = 0x2C \<or> c = 0x5D \<or> c = 0x7D)"

fun wf_json :: "json \<Rightarrow> bool" where
  "wf_json (JStr s) = wf_str s"
| "wf_json (JArr xs) = list_all wf_json xs"
| "wf_json (JObj kvs) =
     (distinct (map fst kvs) \<and> list_all (\<lambda>kv. wf_str (fst kv) \<and> wf_json (snd kv)) kvs)"
| "wf_json _ = True"

fun need :: "json \<Rightarrow> nat" where
  "need (JArr xs) = Suc (length xs + sum_list (map need xs))"
| "need (JObj kvs) = Suc (length kvs + sum_list (map (\<lambda>kv. need (snd kv)) kvs))"
| "need _ = 1"

definition opens_value :: "nat \<Rightarrow> bool" where
  \<comment> \<open>a first character of a serialised value\<close>
  "opens_value c =
     (c = 0x22 \<or> c = 0x7B \<or> c = 0x5B \<or> c = 0x6E \<or> c = 0x74 \<or> c = 0x66 \<or> c = 0x2D
      \<or> is_digit c)"

definition reads_back :: "json \<Rightarrow> bool" where
  "reads_back v =
     (\<forall>n t. need v \<le> n \<longrightarrow> ends_value t \<longrightarrow> scan_once n (dumps v @ t) = Inr (v, t))"

definition member_text :: "ustr \<times> json \<Rightarrow> ustr" where
  \<comment> \<open>a member of a dictionary as \<open>dumps\<close> writes it\<close>
  "member_text kv = encode_basestring_ascii (fst kv) @ ascii '': '' @ dumps (snd kv)"


section \<open>Properties\<close>

subsection \<open>The serialised text is ASCII\<close>

lemma dec_nat_digits: "c \<in> set (dec_nat n) \<Longrightarrow> 48 \<le> c \<and> c \<le> 57"
proof (induction n rule: dec_nat.induct)
  case (1 n)
  show ?case
  proof (cases "n < 10")
    case True
    with "1.prems" show ?thesis by (simp add: dec_nat.simps [of n])
  next
    case False
    with "1.prems" have "c \<in> set (dec_nat (n div 10)) \<or> c = 48 + n mod 10"
      by (auto simp: dec_nat.simps [of n])
    then show ?thesis
    proof
      assume "c \<in> set (dec_nat (n div 10))"
      with False show ?thesis by (rule "1.IH" [OF _])
    next
      assume "c = 48 + n mod 10"
      moreover have "n mod 10 < 10" by simp
      ultimately show ?thesis by linarith
    qed
  qed
qed

lemma str_int_ascii: "c \<in> set (str_int i) \<Longrightarrow> c < 128"
  by (auto simp: str_int_def dest!: dec_nat_digits split: if_splits)

lemma hex_digit_ascii: "d < 16 \<Longrightarrow> hex_digit d < 128"
  by (simp add: hex_digit_def)

lemma u_escape_ascii: "c \<in> set (u_escape n) \<Longrightarrow> c < 128"
  by (auto simp: u_escape_def intro!: hex_digit_ascii)

lemma escape_char_ascii: "x \<in> set (escape_char c) \<Longrightarrow> x < 128"
  by (auto simp: escape_char_def dest: u_escape_ascii split: if_splits)

lemma encode_basestring_ascii_ascii: "x \<in> set (encode_basestring_ascii s) \<Longrightarrow> x < 128"
  by (auto simp: encode_basestring_ascii_def dest: escape_char_ascii)

lemma join_set: "x \<in> set (join sep xs) \<Longrightarrow> x \<in> set sep \<or> (\<exists>y \<in> set xs. x \<in> set y)"
  by (induction sep xs rule: join.induct) auto

lemma dumps_ascii: "x \<in> set (dumps v) \<Longrightarrow> x < 128"
proof (induction v arbitrary: x)
  case (JArr xs)
  from JArr.prems have "x = 0x5B \<or> x = 0x5D \<or> x \<in> set (join (ascii '', '') (map dumps xs))"
    by auto
  then show ?case
  proof (elim disjE)
    assume "x \<in> set (join (ascii '', '') (map dumps xs))"
    then have "x \<in> set (ascii '', '') \<or> (\<exists>y \<in> set (map dumps xs). x \<in> set y)"
      by (rule join_set)
    then show ?thesis using JArr.IH by (auto simp: ascii_def)
  qed simp_all
next
  case (JObj kvs)
  let ?f = "\<lambda>kv. encode_basestring_ascii (fst kv) @ ascii '': '' @ dumps (snd kv)"
  from JObj.prems have "x = 0x7B \<or> x = 0x7D \<or> x \<in> set (join (ascii '', '') (map ?f kvs))"
    by auto
  then show ?case
  proof (elim disjE)
    assume "x \<in> set (join (ascii '', '') (map ?f kvs))"
    then have "x \<in> set (ascii '', '') \<or> (\<exists>y \<in> set (map ?f kvs). x \<in> set y)"
      by (rule join_set)
    then show ?thesis
    proof
      assume "x \<in> set (ascii '', '')" then show ?thesis by (auto simp: ascii_def)
    next
      assume "\<exists>y \<in> set (map ?f kvs). x \<in> set y"
      then obtain kv where kv: "kv \<in> set kvs" and x: "x \<in> set (?f kv)" by auto
      from x have "x \<in> set (encode_basestring_ascii (fst kv)) \<or> x \<in> set (ascii '': '') \<or> x \<in> set (dumps (snd kv))"
        by auto
      then show ?thesis
      proof (elim disjE)
        assume "x \<in> set (dumps (snd kv))"
        moreover have "snd kv \<in> Basic_BNFs.snds kv" by (cases kv) simp
        ultimately show ?thesis using JObj.IH kv by blast
      qed (auto simp: ascii_def dest: encode_basestring_ascii_ascii)
    qed
  qed simp_all
qed (auto simp: ascii_def dest: str_int_ascii encode_basestring_ascii_ascii split: if_splits)

lemma utf8_encode_ascii:
  "\<forall>c \<in> set s. c < 128 \<Longrightarrow> utf8_encode s = Inr (map char_of s)"
  by (induction s) (simp_all add: utf8_char_def)


lemma format_request_ascii: "x \<in> set (format_request p) \<Longrightarrow> x < 128"
  by (auto simp: format_request_def Let_def ascii_def dest: str_int_ascii dumps_ascii)

lemma map_char_of_ascii: "map char_of (ascii s) = s"
  by (simp add: ascii_def comp_def)

lemma char_of_crlf:
  "map char_of [13, 10, 13, 10 :: nat] = [CHR 0x0D, CHR 0x0A, CHR 0x0D, CHR 0x0A]"
  by code_simp

text \<open>
  C5. The message that \<open>format_request\<close> builds is the header \<open>Content-Length: n\<close>, a
  blank line and the serialised payload, and \<open>n\<close>, which the code computes as the
  number of characters of the text, is the number of bytes that the body takes on the
  wire once \<open>send_payload\<close> has encoded the message as UTF-8: the serialiser escapes
  every character beyond ASCII, so that each character is one byte.
\<close>

theorem content_length_is_byte_length:
  "\<exists>body. utf8_encode (dumps payload) = Inr body
      \<and> format_request payload =
          ascii ''Content-Length: '' @ str_int (int (length body))
          @ [0x0D, 0x0A, 0x0D, 0x0A] @ dumps payload
      \<and> utf8_encode (format_request payload) =
          Inr (''Content-Length: '' @ map char_of (str_int (int (length body)))
               @ [CHR 0x0D, CHR 0x0A, CHR 0x0D, CHR 0x0A] @ body)"
proof -
  let ?body = "map char_of (dumps payload) :: bytes"
  have body: "utf8_encode (dumps payload) = Inr ?body"
    by (rule utf8_encode_ascii) (blast dest: dumps_ascii)
  have len: "length ?body = length (dumps payload)" by simp
  have fmt: "format_request payload =
      ascii ''Content-Length: '' @ str_int (int (length ?body))
      @ [0x0D, 0x0A, 0x0D, 0x0A] @ dumps payload"
    by (simp add: format_request_def Let_def)
  have "utf8_encode (format_request payload) = Inr (map char_of (format_request payload))"
    by (rule utf8_encode_ascii) (blast dest: format_request_ascii)
  also have "map char_of (format_request payload) =
      ''Content-Length: '' @ map char_of (str_int (int (length ?body)))
      @ [CHR 0x0D, CHR 0x0A, CHR 0x0D, CHR 0x0A] @ ?body"
    using char_of_crlf by (simp add: fmt map_char_of_ascii)
  finally show ?thesis using body fmt by blast
qed

subsection \<open>What sending and dispatching change\<close>

lemma request_ids_append [simp]: "request_ids (a @ b) = request_ids a @ request_ids b"
  by (simp add: request_ids_def)

lemma calls_append [simp]: "calls (a @ b) = calls a @ calls b"
  by (simp add: calls_def)

lemma request_ids_Nil [simp]: "request_ids [] = []"
  by (simp add: request_ids_def)

lemma calls_Nil [simp]: "calls [] = []"
  by (simp add: calls_def)

lemma trace_emit [simp]: "trace (emit e c) = trace c @ [e]"
  and handlers_emit [simp]: "handlers (emit e c) = handlers c"
  and request_id_emit [simp]: "request_id (emit e c) = request_id c"
  and process_emit [simp]: "process (emit e c) = process c"
  and stdin_broken_emit [simp]: "stdin_broken (emit e c) = stdin_broken c"
  and stdin_data_emit [simp]: "stdin_data (emit e c) = stdin_data c"
  and stdout_ch_emit [simp]: "stdout_ch (emit e c) = stdout_ch c"
  and stderr_ch_emit [simp]: "stderr_ch (emit e c) = stderr_ch c"
  by (simp_all add: emit_def)


lemma request_ids_Cons [simp]:
  "request_ids (e # t) = (case e of Debug_request i m \<Rightarrow> [i] | _ \<Rightarrow> []) @ request_ids t"
  by (simp add: request_ids_def)

lemma calls_Cons [simp]: "calls (e # t) = (if is_call e then e # calls t else calls t)"
  by (simp add: calls_def)

lemma rest_emit [simp]: "rest (emit e c) = rest c"
  by (simp add: rest_def emit_def)

lemma rest_fields:
  assumes "rest c' = rest c"
  shows "handlers c' = handlers c" and "request_id c' = request_id c"
    and "process c' = process c" and "stdin_data c' = stdin_data c"
    and "stdin_broken c' = stdin_broken c" and "stdout_ch c' = stdout_ch c"
    and "stderr_ch c' = stderr_ch c"
proof -
  have "handlers (rest c') = handlers (rest c)" "request_id (rest c') = request_id (rest c)"
    "process (rest c') = process (rest c)" "stdin_data (rest c') = stdin_data (rest c)"
    "stdin_broken (rest c') = stdin_broken (rest c)" "stdout_ch (rest c') = stdout_ch (rest c)"
    "stderr_ch (rest c') = stderr_ch (rest c)"
    by (simp_all only: assms)
  then show "handlers c' = handlers c" and "request_id c' = request_id c"
    and "process c' = process c" and "stdin_data c' = stdin_data c"
    and "stdin_broken c' = stdin_broken c" and "stdout_ch c' = stdout_ch c"
    and "stderr_ch c' = stderr_ch c"
    by (simp_all add: rest_def)
qed

lemma response_handler_rest: "rest (snd (response_handler env c d)) = rest c"
  by (simp add: response_handler_def Let_def split: sum.splits option.splits json.splits)

lemma response_handler_ids:
  "request_ids (trace (snd (response_handler env c d))) = request_ids (trace c)"
  by (simp add: response_handler_def Let_def split: sum.splits option.splits json.splits)

lemma request_handler_rest: "rest (snd (request_handler c d)) = rest c"
  by (simp add: request_handler_def Let_def)

lemma request_handler_ids:
  "request_ids (trace (snd (request_handler c d))) = request_ids (trace c)"
  by (simp add: request_handler_def Let_def)

lemma request_handler_calls:
  "calls (trace (snd (request_handler c d))) = calls (trace c)"
  by (simp add: request_handler_def Let_def is_call_def)

lemma notification_handler_rest: "rest (snd (notification_handler env c d)) = rest c"
  by (simp add: notification_handler_def Let_def)

lemma notification_handler_ids:
  "request_ids (trace (snd (notification_handler env c d))) = request_ids (trace c)"
  by (simp add: notification_handler_def Let_def)

lemma notification_handler_calls:
  "calls (trace (snd (notification_handler env c d))) = calls (trace c)"
  by (simp add: notification_handler_def Let_def is_call_def)

lemma dispatch_rest: "rest (snd (dispatch env c d)) = rest c"
  by (simp add: dispatch_def response_handler_rest request_handler_rest
      notification_handler_rest)

lemma dispatch_ids: "request_ids (trace (snd (dispatch env c d))) = request_ids (trace c)"
  by (simp add: dispatch_def response_handler_ids request_handler_ids
      notification_handler_ids)

lemma handle_payload_rest: "rest (handle_payload env c d) = rest c"
  using dispatch_rest [of env c d]
  by (cases "dispatch env c d") (auto simp: handle_payload_def split: option.splits)

lemma handle_payload_ids:
  "request_ids (trace (handle_payload env c d)) = request_ids (trace c)"
  using dispatch_ids [of env c d]
  by (cases "dispatch env c d") (auto simp: handle_payload_def split: option.splits)

lemma send_payload_rest_ids:
  "request_ids (trace (snd (send_payload c p))) = request_ids (trace c)"
  and send_payload_request_id: "request_id (snd (send_payload c p)) = request_id c"
  and send_payload_handlers: "handlers (snd (send_payload c p)) = handlers c"
  and send_payload_calls: "calls (trace (snd (send_payload c p))) = calls (trace c)"
  by (simp_all add: send_payload_def Let_def is_call_def split: sum.splits option.splits)

lemma send_request_ids:
  "request_ids (trace (snd (send_request c r h))) = request_ids (trace c) @ [request_id c + 1]"
  and send_request_request_id: "request_id (snd (send_request c r h)) = request_id c + 1"
  and send_request_calls: "calls (trace (snd (send_request c r h))) = calls (trace c)"
  by (simp_all add: send_request_def Let_def send_payload_rest_ids send_payload_request_id
      send_payload_calls is_call_def split: option.splits)

lemma send_request_handlers:
  "handlers (snd (send_request c r h)) =
     (case h of None \<Rightarrow> handlers c | Some x \<Rightarrow> (handlers c)(request_id c + 1 \<mapsto> x))"
  by (simp add: send_request_def Let_def send_payload_handlers split: option.splits)

lemma send_notification_ids:
  "request_ids (trace (snd (send_notification c n))) = request_ids (trace c)"
  and send_notification_request_id: "request_id (snd (send_notification c n)) = request_id c"
  and send_notification_handlers: "handlers (snd (send_notification c n)) = handlers c"
  and send_notification_calls: "calls (trace (snd (send_notification c n))) = calls (trace c)"
  by (simp_all add: send_notification_def send_payload_rest_ids send_payload_request_id
      send_payload_handlers send_payload_calls is_call_def)

lemma is_send_simps [simp]:
  "is_send (Send r h)" "\<not> is_send (Notify n)" "\<not> is_send (Receive d)"
  by (simp_all add: is_send_def)

lemma run_request_ids:
  "request_ids (trace (run env c ops)) =
     request_ids (trace c) @ [request_id c + 1 .. request_id c + int (length (filter is_send ops))]
   \<and> request_id (run env c ops) = request_id c + int (length (filter is_send ops))"
proof (induction ops arbitrary: c)
  case Nil
  show ?case by simp
next
  case (Cons x ops)
  show ?case
  proof (cases x)
    case (Send r h)
    let ?n = "int (length (filter is_send ops))"
    have "[request_id c + 1 .. request_id c + (1 + ?n)] =
        (request_id c + 1) # [request_id c + 1 + 1 .. request_id c + 1 + ?n]"
      by (subst upto_rec1) (simp_all add: add.assoc)
    with Send Cons.IH [of "snd (send_request c r h)"] show ?thesis
      by (simp add: send_request_ids send_request_request_id add.assoc)
  next
    case (Notify n)
    with Cons.IH [of "snd (send_notification c n)"] show ?thesis
      by (simp add: send_notification_ids send_notification_request_id)
  next
    case (Receive d)
    with Cons.IH [of "handle_payload env c d"] show ?thesis
      using rest_fields(2) [OF handle_payload_rest, of env c d]
      by (simp add: handle_payload_ids)
  qed
qed

text \<open>
  C6. Whatever the client does in its life (requests and notifications sent, messages
  received and dispatched, in any order), the identifiers that \<open>send_request\<close> assigns
  are \<open>1, 2, ..., N\<close> in this order, where \<open>N\<close> is the number of requests sent: they
  start at 1, grow by one, and none is used twice. In particular \<open>N\<close> requests sent
  without a response in between get \<open>1, ..., N\<close>.
\<close>

theorem request_ids_count_up:
  "request_ids (trace (run env (init broken out err) ops))
     = [1 .. int (length (filter is_send ops))]"
  using run_request_ids [of env "init broken out err" ops]
  by (simp add: init_def)


lemma is_call_simps [simp]: "is_call (Call h r)"
  "\<not> is_call (Printf_error_handling e)" "\<not> is_call (Debug_error_handling_response i)"
  "\<not> is_call (Debug_got_error v)" "\<not> is_call (Debug_no_handler s)"
  "\<not> is_call (Debug_unknown_payload d)"
  by (simp_all add: is_call_def)

lemma handle_registered_response:
  assumes "is_response d" and "py_int env (or_null (get d ''id'')) = Inr i"
    and "handlers c i = Some h" and "truthy env h"
  shows "handle_payload env c d =
     (case call env h (or_null (get d ''result'')) of
        None \<Rightarrow> emit (Call h (or_null (get d ''result''))) c
      | Some e \<Rightarrow>
          emit (Printf_error_handling e)
            (emit (Debug_error_handling_response i)
               (emit (Call h (or_null (get d ''result''))) c)))"
  using assms
  by (simp add: handle_payload_def dispatch_def response_handler_def is_response_def Let_def
      split: option.splits)

lemma handle_registered_response_calls:
  assumes "is_response d" and "py_int env (or_null (get d ''id'')) = Inr i"
    and "handlers c i = Some h" and "truthy env h"
  shows "calls (trace (handle_payload env c d)) =
     calls (trace c) @ [Call h (or_null (get d ''result''))]"
  by (simp add: handle_registered_response [OF assms] split: option.splits)

lemma handle_error_response:
  assumes "has_key d ''error''"
  shows "handle_payload env c d =
     emit (Printf_error_handling NameError)
       (emit (Debug_got_error (or_null (get d ''error''))) c)"
  using assms by (simp add: handle_payload_def dispatch_def)

lemma handle_payload_handlers: "handlers (handle_payload env c d) = handlers c"
  by (rule rest_fields(1) [OF handle_payload_rest])

lemma run_append: "run env c (a @ b) = run env (run env c a) b"
  by (induction a arbitrary: c rule: run.induct [where ?a0.0 = env]) simp_all

lemma run_sends_handlers:
  "handlers (run env c (sends reqs)) k =
     (if request_id c < k \<and> k \<le> request_id c + int (length reqs)
      then Some (snd (reqs ! nat (k - request_id c - 1))) else handlers c k)"
proof (induction reqs arbitrary: c)
  case Nil
  show ?case by (auto simp: sends_def)
next
  case (Cons rh reqs)
  let ?c = "snd (send_request c (fst rh) (Some (snd rh)))"
  have run: "run env c (sends (rh # reqs)) = run env ?c (sends reqs)"
    by (simp add: sends_def)
  have id: "request_id ?c = request_id c + 1" by (rule send_request_request_id)
  have h: "handlers ?c = (handlers c)(request_id c + 1 \<mapsto> snd rh)"
    by (simp add: send_request_handlers)
  show ?case
  proof (cases "k = request_id c + 1")
    case True
    then show ?thesis unfolding run Cons.IH id h by simp
  next
    case False
    have "request_id c + 1 < k \<Longrightarrow> nat (k - request_id c - 1) = Suc (nat (k - (request_id c + 1) - 1))"
      by simp
    with False show ?thesis unfolding run Cons.IH id h by auto
  qed
qed

lemma run_sends_calls: "calls (trace (run env c (sends reqs))) = calls (trace c)"
  by (induction reqs arbitrary: c) (simp_all add: sends_def send_request_calls)

lemma run_sends_request_id: "request_id (run env c (sends reqs)) = request_id c + int (length reqs)"
  by (induction reqs arbitrary: c) (simp_all add: sends_def send_request_request_id)

lemma get_has_key: "get d k = Some v \<Longrightarrow> has_key d k"
  by (simp add: get_def has_key_def)

lemma run_receives_calls:
  assumes "\<forall>i \<in> set is. get (resp i) ''id'' = Some (JInt i) \<and> \<not> has_key (resp i) ''method''
             \<and> (\<exists>h. handlers c i = Some h \<and> truthy env h)"
  shows "calls (trace (run env c (map (\<lambda>i. Receive (resp i)) is))) =
     calls (trace c)
     @ map (\<lambda>i. Call (the (handlers c i)) (or_null (get (resp i) ''result'')))
         (filter (\<lambda>i. \<not> has_key (resp i) ''error'') is)"
  using assms
proof (induction "is" arbitrary: c)
  case Nil
  show ?case by simp
next
  case (Cons i "is")
  from Cons.prems obtain h where h: "handlers c i = Some h" "truthy env h"
    and r: "get (resp i) ''id'' = Some (JInt i)" "\<not> has_key (resp i) ''method''" by auto
  let ?c = "handle_payload env c (resp i)"
  have hs: "handlers ?c = handlers c" by (rule handle_payload_handlers)
  from Cons.prems have "\<forall>i \<in> set is. get (resp i) ''id'' = Some (JInt i)
             \<and> \<not> has_key (resp i) ''method''
             \<and> (\<exists>h. handlers ?c i = Some h \<and> truthy env h)"
    by (simp add: hs)
  note IH = Cons.IH [OF this]
  show ?case
  proof (cases "has_key (resp i) ''error''")
    case True
    have "calls (trace ?c) = calls (trace c)"
      by (simp add: handle_error_response [OF True])
    with IH True show ?thesis by (simp add: hs)
  next
    case False
    with r have resp: "is_response (resp i)"
      by (simp add: is_response_def get_has_key)
    from r(1) have id: "py_int env (or_null (get (resp i) ''id'')) = Inr i"
      by (simp add: py_int_def or_null_def)
    have "calls (trace ?c) = calls (trace c) @ [Call h (or_null (get (resp i) ''result''))]"
      by (rule handle_registered_response_calls [OF resp id h])
    with IH False show ?thesis by (simp add: hs h)
  qed
qed

text \<open>
  C1, as the code has it. \<open>N\<close> requests are sent, each with a handler, and then a message
  with the identifier of each of them arrives, in any order \<open>perm\<close> of the identifiers
  \<open>1..N\<close>. The handlers invoked are, in the order of arrival, those of the requests whose
  message has no member \<open>error\<close>, each with the result of its own message: such a
  request's handler is invoked exactly once, whatever the order, and the handler of a
  request answered with an error is not invoked at all.
\<close>

theorem each_handler_called_once:
  assumes "\<forall>rh \<in> set reqs. truthy env (snd rh)"
    and "mset perm = mset [1 .. int (length reqs)]"
    and "\<forall>i \<in> set perm. get (resp i) ''id'' = Some (JInt i) \<and> \<not> has_key (resp i) ''method''"
  shows "calls (trace (run env (init broken out err)
                    (sends reqs @ map (\<lambda>i. Receive (resp i)) perm)))
         = map (\<lambda>i. Call (snd (reqs ! nat (i - 1))) (or_null (get (resp i) ''result'')))
             (filter (\<lambda>i. \<not> has_key (resp i) ''error'') perm)
       \<and> mset (calls (trace (run env (init broken out err)
                    (sends reqs @ map (\<lambda>i. Receive (resp i)) perm))))
         = mset (map (\<lambda>i. Call (snd (reqs ! nat (i - 1))) (or_null (get (resp i) ''result'')))
                   (filter (\<lambda>i. \<not> has_key (resp i) ''error'') [1 .. int (length reqs)]))"
proof -
  let ?ini = "init broken out err :: 'a client"
  let ?c = "run env ?ini (sends reqs)"
  let ?f = "\<lambda>i. Call (snd (reqs ! nat (i - 1))) (or_null (get (resp i) ''result''))"
  let ?ok = "\<lambda>i. \<not> has_key (resp i) ''error''"
  have set: "set perm = {1 .. int (length reqs)}"
    using assms(2) by (metis mset_eq_setD set_upto)
  have hs: "handlers ?c i = Some (snd (reqs ! nat (i - 1)))" if "i \<in> set perm" for i
    using that set by (simp add: run_sends_handlers init_def)
  have tr: "truthy env (snd (reqs ! nat (i - 1)))" if "i \<in> set perm" for i
  proof -
    from that set have "nat (i - 1) < length reqs" by auto
    then have "reqs ! nat (i - 1) \<in> set reqs" by (rule nth_mem)
    with assms(1) show ?thesis by blast
  qed
  have "\<forall>i \<in> set perm. get (resp i) ''id'' = Some (JInt i) \<and> \<not> has_key (resp i) ''method''
             \<and> (\<exists>h. handlers ?c i = Some h \<and> truthy env h)"
    using assms(3) hs tr by simp
  then have "calls (trace (run env ?c (map (\<lambda>i. Receive (resp i)) perm))) =
     calls (trace ?c)
     @ map (\<lambda>i. Call (the (handlers ?c i)) (or_null (get (resp i) ''result''))) (filter ?ok perm)"
    by (rule run_receives_calls)
  also have "calls (trace ?c) = []" by (simp add: run_sends_calls init_def)
  also have "map (\<lambda>i. Call (the (handlers ?c i)) (or_null (get (resp i) ''result''))) (filter ?ok perm)
      = map ?f (filter ?ok perm)"
    by (rule map_cong) (simp_all add: hs)
  finally have 1: "calls (trace (run env ?ini (sends reqs @ map (\<lambda>i. Receive (resp i)) perm)))
      = map ?f (filter ?ok perm)"
    by (simp add: run_append)
  have "mset (filter ?ok perm) = mset (filter ?ok [1 .. int (length reqs)])"
    using assms(2) by (simp only: mset_filter)
  then have "mset (map ?f (filter ?ok perm)) = mset (map ?f (filter ?ok [1 .. int (length reqs)]))"
    by (metis mset_map)
  with 1 show ?thesis by simp
qed

lemma upto_1_3: "[1 .. 3::int] = [1, 2, 3]"
  by (simp add: upto_rec1)

lemma is_response_reply: "is_response (reply i) \<and> get (reply i) ''id'' = Some (JInt i)"
  by (simp add: is_response_def reply_def has_key_def get_def ascii_def)

lemma reply_shape:
  "get (reply i) ''id'' = Some (JInt i)" "\<not> has_key (reply i) ''method''"
  "\<not> has_key (reply i) ''error''" "or_null (get (reply i) ''result'') = JArr [JInt i]"
  by (simp_all add: reply_def has_key_def get_def or_null_def ascii_def)

lemma error_reply_shape:
  "get (error_reply i) ''id'' = Some (JInt i)" "\<not> has_key (error_reply i) ''method''"
  "has_key (error_reply i) ''error''"
  by (simp_all add: error_reply_def has_key_def get_def ascii_def)

theorem each_handler_called_once_witness:
  "calls (trace (run plain_env (init False silent silent)
      (sends [(example_request ''initialize'' JNull, 10),
              (example_request ''textDocument/hover'' JNull, 20),
              (example_request ''shutdown'' JNull, 30)]
       @ map (\<lambda>i. Receive (if i = 3 then error_reply i else reply i)) [2, 3, 1])))
   = [Call 20 (JArr [JInt 2]), Call 10 (JArr [JInt 1])]"
proof -
  let ?reqs = "[(example_request ''initialize'' JNull, 10::nat),
              (example_request ''textDocument/hover'' JNull, 20),
              (example_request ''shutdown'' JNull, 30)]"
  let ?resp = "\<lambda>i. if i = 3 then error_reply i else reply i"
  have h1: "\<forall>rh \<in> set ?reqs. truthy plain_env (snd rh)"
    by (simp add: plain_env_def)
  have h2: "mset [2, 3, 1] = mset [1 .. int (length ?reqs)]"
    by (simp add: upto_1_3)
  have h3: "\<forall>i \<in> set [2, 3, 1]. get (?resp i) ''id'' = Some (JInt i)
      \<and> \<not> has_key (?resp i) ''method''"
    by (simp add: reply_shape error_reply_shape)
  from each_handler_called_once [OF h1 h2 h3, of False silent silent]
  have "calls (trace (run plain_env (init False silent silent)
      (sends ?reqs @ map (\<lambda>i. Receive (?resp i)) [2, 3, 1]))) =
      map (\<lambda>i. Call (snd (?reqs ! nat (i - 1))) (or_null (get (?resp i) ''result'')))
        (filter (\<lambda>i. \<not> has_key (?resp i) ''error'') [2, 3, 1])"
    by (rule conjunct1)
  also have "\<dots> = [Call 20 (JArr [JInt 2]), Call 10 (JArr [JInt 1])]"
    by (simp add: reply_shape error_reply_shape)
  finally show ?thesis .
qed

text \<open>
  The claim C1 as it is written fails. Three requests are pending and the messages for
  them arrive in the order 2, 3, 1; the one for request 3 is the error response
  \<open>{"id": 3, "error": {...}}\<close>. The handler of request 3 is registered and is never
  invoked.
\<close>

theorem error_reply_handler_never_called:
  "handlers three_sent 3 = Some 30
   \<and> calls (trace (run plain_env three_sent
        [Receive (reply 2), Receive (error_reply 3), Receive (reply 1)]))
     = [Call 20 (JArr [JInt 2]), Call 10 (JArr [JInt 1])]"
proof -
  have hs: "handlers three_sent 1 = Some 10" "handlers three_sent 2 = Some 20"
    "handlers three_sent 3 = Some 30" "calls (trace three_sent) = []"
    by (simp_all add: three_sent_def run_sends_handlers run_sends_calls init_def)
  have t: "truthy plain_env h" for h :: nat by (simp add: plain_env_def)
  have id: "py_int plain_env (or_null (get (reply i) ''id'')) = Inr i" for i
    by (simp add: reply_shape py_int_def or_null_def)
  let ?c1 = "handle_payload plain_env three_sent (reply 2)"
  let ?c2 = "handle_payload plain_env ?c1 (error_reply 3)"
  let ?c3 = "handle_payload plain_env ?c2 (reply 1)"
  have 1: "calls (trace ?c1) = [Call 20 (JArr [JInt 2])]"
    using handle_registered_response_calls [OF conjunct1 [OF is_response_reply] id hs(2) t]
    by (simp add: hs reply_shape)
  have 2: "calls (trace ?c2) = [Call 20 (JArr [JInt 2])]"
    by (simp add: handle_error_response [OF error_reply_shape(3)] 1)
  have h3: "handlers ?c2 1 = Some 10" by (simp add: handle_payload_handlers hs)
  have 3: "calls (trace ?c3) = [Call 20 (JArr [JInt 2]), Call 10 (JArr [JInt 1])]"
    using handle_registered_response_calls [OF conjunct1 [OF is_response_reply] id h3 t]
    by (simp add: 2 reply_shape)
  from 3 hs(3) show ?thesis by simp
qed

subsection \<open>Responses\<close>

text \<open>
  C4, as the code has it. A response for a registered identifier makes the dispatcher
  invoke the handler registered for it, once, with the result of the response; the
  table of handlers is left as it was, so the entry stays. In the scenario of one
  request sent (identifier 1) and the response \<open>{"id": 1, "result": {}}\<close>, the handler is
  invoked once with \<open>{}\<close> and the table still holds the entry for 1.
\<close>

theorem response_keeps_entry:
  assumes "is_response d" and "py_int env (or_null (get d ''id'')) = Inr i"
    and "handlers c i = Some h" and "truthy env h"
  shows "calls (trace (handle_payload env c d)) =
           calls (trace c) @ [Call h (or_null (get d ''result''))]
         \<and> handlers (handle_payload env c d) = handlers c"
  using handle_registered_response_calls [OF assms] handle_payload_handlers [of env c d]
  by simp

lemma initialize_sent_fields:
  "handlers initialize_sent = [1 \<mapsto> 7]" "calls (trace initialize_sent) = []"
  "request_id initialize_sent = 1"
  by (simp_all add: initialize_sent_def send_request_handlers send_request_calls
      send_request_request_id init_def)

lemma result_for_1_shape:
  "is_response result_for_1" "py_int env (or_null (get result_for_1 ''id'')) = Inr 1"
  "or_null (get result_for_1 ''result'') = JObj []"
  by (simp_all add: result_for_1_def is_response_def has_key_def get_def or_null_def
      py_int_def ascii_def)

theorem response_keeps_entry_witness:
  "calls (trace (handle_payload plain_env initialize_sent result_for_1)) = [Call 7 (JObj [])]
   \<and> handlers (handle_payload plain_env initialize_sent result_for_1) = [1 \<mapsto> 7]"
proof -
  have h: "handlers initialize_sent 1 = Some 7" by (simp add: initialize_sent_fields)
  have t: "truthy plain_env (7::nat)" by (simp add: plain_env_def)
  from response_keeps_entry [OF result_for_1_shape(1) result_for_1_shape(2) h t]
  show ?thesis by (simp add: initialize_sent_fields result_for_1_shape)
qed

text \<open>
  The claim C4 as it is written fails in its scenario: after the response has been
  dispatched, the table is not empty.
\<close>

theorem table_not_empty_after_response:
  "handlers (run plain_env (init False silent silent)
      [Send (example_request ''initialize'' JNull) (Some 7), Receive result_for_1]) \<noteq> Map.empty
   \<and> handlers (run plain_env (init False silent silent)
      [Send (example_request ''initialize'' JNull) (Some 7), Receive result_for_1]) 1 = Some 7
   \<and> calls (trace (run plain_env (init False silent silent)
      [Send (example_request ''initialize'' JNull) (Some 7), Receive result_for_1]))
     = [Call 7 (JObj [])]"
proof -
  have "run plain_env (init False silent silent)
      [Send (example_request ''initialize'' JNull) (Some 7), Receive result_for_1]
      = handle_payload plain_env initialize_sent result_for_1"
    by (simp add: initialize_sent_def)
  moreover have "handlers initialize_sent 1 = Some 7" by (simp add: initialize_sent_fields)
  moreover have "truthy plain_env (7::nat)" by (simp add: plain_env_def)
  ultimately show ?thesis
    using handle_registered_response_calls [OF result_for_1_shape(1) result_for_1_shape(2),
        of initialize_sent 7]
    by (simp add: handle_payload_handlers initialize_sent_fields result_for_1_shape)
qed

subsection \<open>Responses that carry an error\<close>

text \<open>
  C8, as the code has it. A message with a member \<open>error\<close> takes the error branch of
  the dispatcher: no handler is invoked and the table is left as it was. A response
  without such a member, for a registered identifier, has its handler invoked with the
  result, whatever the result holds (an error object inside \<open>result\<close> included).
\<close>

theorem error_member_bypasses_handler:
  "(has_key d ''error'' \<longrightarrow>
      calls (trace (handle_payload env c d)) = calls (trace c)
      \<and> handlers (handle_payload env c d) = handlers c)
   \<and> (is_response d \<and> py_int env (or_null (get d ''id'')) = Inr i
        \<and> handlers c i = Some h \<and> truthy env h \<longrightarrow>
      calls (trace (handle_payload env c d)) =
        calls (trace c) @ [Call h (or_null (get d ''result''))])"
  using handle_registered_response_calls [of d env i c h]
  by (simp add: handle_error_response handle_payload_handlers)

lemma error_for_1_shape: "has_key error_for_1 ''error''"
  by (simp add: error_for_1_def has_key_def ascii_def)

lemma error_in_result_for_1_shape:
  "is_response error_in_result_for_1"
  "py_int env (or_null (get error_in_result_for_1 ''id'')) = Inr 1"
  "or_null (get error_in_result_for_1 ''result'') = JObj [(ascii ''error'', JStr (ascii ''no''))]"
  by (simp_all add: error_in_result_for_1_def is_response_def has_key_def get_def or_null_def
      py_int_def ascii_def)

theorem error_member_bypasses_handler_witness:
  "has_key error_for_1 ''error''
   \<and> calls (trace (handle_payload plain_env initialize_sent error_for_1)) = []
   \<and> handlers (handle_payload plain_env initialize_sent error_for_1) 1 = Some 7
   \<and> calls (trace (handle_payload plain_env initialize_sent error_in_result_for_1))
       = [Call 7 (JObj [(ascii ''error'', JStr (ascii ''no''))])]"
proof -
  have h: "handlers initialize_sent 1 = Some 7" by (simp add: initialize_sent_fields)
  have t: "truthy plain_env (7::nat)" by (simp add: plain_env_def)
  from error_member_bypasses_handler [of error_for_1 plain_env initialize_sent]
  have 1: "calls (trace (handle_payload plain_env initialize_sent error_for_1)) = []
     \<and> handlers (handle_payload plain_env initialize_sent error_for_1) 1 = Some 7"
    by (simp add: error_for_1_shape initialize_sent_fields)
  from error_member_bypasses_handler [of error_in_result_for_1 plain_env initialize_sent 1 7]
  have 2: "calls (trace (handle_payload plain_env initialize_sent error_in_result_for_1))
       = [Call 7 (JObj [(ascii ''error'', JStr (ascii ''no''))])]"
    by (simp add: error_in_result_for_1_shape h t initialize_sent_fields)
  from 1 2 show ?thesis by (simp add: error_for_1_shape)
qed

text \<open>
  The claim C8 as it is written fails: the response \<open>{"id": 1, "error": {...}}\<close> to the
  request 1, whose handler is registered, invokes no handler.
\<close>

theorem error_response_handler_not_called:
  "handlers initialize_sent 1 = Some 7
   \<and> calls (trace (handle_payload plain_env initialize_sent error_for_1)) = []"
  by (simp add: initialize_sent_fields handle_error_response [OF error_for_1_shape] is_call_def)

subsection \<open>Identifiers sent back as strings\<close>

lemma digits_not_space: "is_digit c \<Longrightarrow> \<not> is_space c"
  by (auto simp: is_digit_def is_space_def)

lemma strip_spaces_digits:
  assumes "s \<noteq> []" and "list_all is_digit s"
  shows "strip_spaces s = s"
proof -
  from assms have "is_digit (hd s)" "is_digit (last s)"
    by (simp_all add: list_all_iff)
  then have "\<not> is_space (hd s)" "\<not> is_space (last s)"
    by (simp_all add: digits_not_space)
  then have "dropWhile is_space s = s" "dropWhile is_space (rev s) = rev s"
    using assms(1) by (simp_all add: dropWhile_eq_self_iff hd_rev)
  then show ?thesis by (simp add: strip_spaces_def)
qed

lemma no_double_underscore_digits: "list_all is_digit s \<Longrightarrow> no_double_underscore s"
proof (induction s rule: no_double_underscore.induct)
  case (1 a b r)
  from "1.prems" have "a \<noteq> 95" by (simp add: is_digit_def)
  moreover from "1.prems" have "list_all is_digit (b # r)" by simp
  ultimately show ?case using "1.IH" by simp
qed simp_all

lemma digits_ok_digits:
  assumes "s \<noteq> []" and "list_all is_digit s"
  shows "digits_ok s"
proof -
  from assms have "is_digit (hd s)" "is_digit (last s)"
    by (simp_all add: list_all_iff)
  moreover from assms(2) have "list_all (\<lambda>c. is_digit c \<or> c = 95) s"
    by (simp add: list_all_iff)
  ultimately show ?thesis
    using assms(1) no_double_underscore_digits [OF assms(2)] by (simp add: digits_ok_def)
qed

lemma int_of_text_digits:
  assumes "s \<noteq> []" and "list_all is_digit s"
  shows "int_of_text s = Inr (int (digits_val s))"
proof -
  obtain c r where s: "s = c # r" using assms(1) by (cases s) auto
  with assms(2) have c: "c \<noteq> 45" "c \<noteq> 43" by (auto simp: is_digit_def)
  have "strip_spaces s = c # r" using strip_spaces_digits [OF assms] s by simp
  moreover have "digits_ok (c # r)" using digits_ok_digits [OF assms] s by simp
  ultimately show ?thesis
    using c by (simp add: int_of_text_def s)
qed

lemma int_of_str_digits:
  assumes "s \<noteq> []" and "list_all is_digit s"
  shows "int_of_str env s = Inr (int (digits_val s))"
proof -
  have "\<forall>c \<in> set s. c < 127"
    using assms(2) by (auto simp: list_all_iff is_digit_def)
  then have "map (\<lambda>c. if c < 127 then c
                 else if uspace env c then 32
                 else (case udigit env c of Some d \<Rightarrow> 48 + d | None \<Rightarrow> 63)) s = s"
    by (simp add: map_idI)
  then show ?thesis by (simp add: int_of_str_def int_of_text_digits [OF assms])
qed

text \<open>
  C10. When the \<open>id\<close> of a response is a string of decimal digits, \<open>int\<close> turns it
  into the integer it denotes before the table is consulted, and the handler registered
  under that integer is invoked with the result.
\<close>

theorem string_id_is_coerced:
  assumes "s \<noteq> []" and "list_all is_digit s"
    and "is_response d" and "get d ''id'' = Some (JStr s)"
    and "handlers c (int (digits_val s)) = Some h" and "truthy env h"
  shows "py_int env (JStr s) = Inr (int (digits_val s))
     \<and> calls (trace (handle_payload env c d)) =
         calls (trace c) @ [Call h (or_null (get d ''result''))]"
proof -
  have id: "py_int env (or_null (get d ''id'')) = Inr (int (digits_val s))"
    by (simp add: assms(4) or_null_def py_int_def int_of_str_digits [OF assms(1,2)])
  from handle_registered_response_calls [OF assms(3) id assms(5,6)] id
  show ?thesis by (simp add: assms(4) or_null_def)
qed

lemma three_sent_fields:
  "handlers three_sent 3 = Some 30" "calls (trace three_sent) = []"
  by (simp_all add: three_sent_def run_sends_handlers run_sends_calls init_def)

theorem string_id_is_coerced_witness:
  "py_int plain_env (JStr (ascii ''3'')) = Inr 3
   \<and> calls (trace (handle_payload plain_env three_sent result_for_string_3))
      = [Call 30 (JBool True)]"
proof -
  have v: "digits_val (ascii ''3'') = 3" by (simp add: digits_val_def ascii_def is_digit_def)
  have a: "ascii ''3'' \<noteq> []" "list_all is_digit (ascii ''3'')"
    by (simp_all add: ascii_def is_digit_def)
  have r: "is_response result_for_string_3"
    "get result_for_string_3 ''id'' = Some (JStr (ascii ''3''))"
    "or_null (get result_for_string_3 ''result'') = JBool True"
    by (simp_all add: result_for_string_3_def is_response_def has_key_def get_def or_null_def
        ascii_def)
  have h: "handlers three_sent (int (digits_val (ascii ''3''))) = Some 30"
    by (simp add: v three_sent_fields)
  have t: "truthy plain_env (30::nat)" by (simp add: plain_env_def)
  from string_id_is_coerced [OF a r(1,2) h t]
  show ?thesis by (simp add: v r(3) three_sent_fields)
qed

subsection \<open>The reader loops\<close>

lemma read_message_channel:
  "snd (read_message c) = c\<lparr>stdout_ch := stdout_ch (snd (read_message c))\<rparr>"
  by (simp add: read_message_def split: option.splits prod.splits sum.splits)

lemma read_message_process:
  assumes "read_message c = (Inr x, c1)"
  shows "process c \<noteq> None"
  using assms by (auto simp: read_message_def split: option.splits)

lemma stdout_iteration_dispatch:
  assumes "read_message c = (Inr (Some content), c1)" and "loads env content = Inr (JObj d)"
  shows "stdout_iteration env c = (Continue, handle_payload env (noted c1 d content) d)"
  using assms
  by (simp add: stdout_iteration_def parse_and_dispatch_def noted_def Let_def)

lemma read_stdout_dispatch:
  assumes "read_message c = (Inr (Some content), c1)" and "loads env content = Inr (JObj d)"
  shows "read_stdout env (Suc n) c =
     read_stdout env n (handle_payload env (noted c1 d content) d)"
  using read_message_process [OF assms(1)] stdout_iteration_dispatch [OF assms]
  by (auto split: option.splits)

lemma noted_no_method:
  "\<not> has_key d ''method'' \<Longrightarrow> noted c d content = emit (Debug_got_json (take 200 content)) c"
  by (simp add: noted_def has_key_def get_def)

lemma noted_response:
  "is_response d \<Longrightarrow> noted c d content = emit (Debug_got_json (take 200 content)) c"
  by (simp add: noted_no_method is_response_def)

lemma handle_unknown_response:
  assumes "is_response d"
    and "\<forall>i. py_int env (or_null (get d ''id'')) = Inr i \<longrightarrow> handlers c i = None"
  shows "handle_payload env c d =
     (case py_int env (or_null (get d ''id'')) of
        Inl e \<Rightarrow> emit (Printf_error_handling UnboundLocalError) c
      | Inr i \<Rightarrow>
          emit (Printf_error_handling KeyError) (emit (Debug_error_handling_response i) c))"
  using assms
  by (simp add: handle_payload_def dispatch_def response_handler_def is_response_def Let_def
      split: sum.splits)

lemma read_message_fields:
  assumes "read_message c = (r, c1)"
  shows "handlers c1 = handlers c" and "trace c1 = trace c" and "process c1 = process c"
proof -
  from read_message_channel [of c] assms have "c1 = c\<lparr>stdout_ch := stdout_ch c1\<rparr>" by simp
  then have "handlers c1 = handlers (c\<lparr>stdout_ch := stdout_ch c1\<rparr>)"
    "trace c1 = trace (c\<lparr>stdout_ch := stdout_ch c1\<rparr>)"
    "process c1 = process (c\<lparr>stdout_ch := stdout_ch c1\<rparr>)" by simp_all
  then show "handlers c1 = handlers c" and "trace c1 = trace c" and "process c1 = process c"
    by simp_all
qed

text \<open>
  C7. The reader has read a message whose body parses to a dictionary with an \<open>id\<close>
  and no \<open>method\<close>, a response, and the table of handlers has no entry for its
  identifier (the identifier does not convert to an integer, or no handler is
  registered for the integer). Then the iteration logs the events \<open>miss_log\<close>, which
  end with a line of \<open>printf\<close> and hold no invocation of a handler, nothing else of the
  client changes, and the loop goes on with the next message.
\<close>

theorem unknown_id_is_logged_and_skipped:
  assumes "read_message c = (Inr (Some content), c1)"
    and "loads env content = Inr (JObj d)"
    and "has_key d ''id''" and "\<not> has_key d ''method''"
    and "\<forall>i. py_int env (or_null (get d ''id'')) = Inr i \<longrightarrow> handlers c i = None"
  shows "stdout_iteration env c = (Continue, c1\<lparr>trace := trace c1 @ miss_log env d content\<rparr>)
     \<and> (\<exists>e. last (miss_log env d content) = Printf_error_handling e)
     \<and> calls (miss_log env d content) = []
     \<and> read_stdout env (Suc n) c =
         read_stdout env n (c1\<lparr>trace := trace c1 @ miss_log env d content\<rparr>)"
proof -
  let ?c = "noted c1 d content"
  have n: "?c = emit (Debug_got_json (take 200 content)) c1"
    by (rule noted_no_method [OF assms(4)])
  have hs: "handlers ?c = handlers c" by (simp add: n read_message_fields(1) [OF assms(1)])
  have "handle_payload env ?c d = c1\<lparr>trace := trace c1 @ miss_log env d content\<rparr>"
  proof (cases "has_key d ''error''")
    case True
    then show ?thesis
      by (simp add: handle_error_response n miss_log_def emit_def)
  next
    case False
    with assms(3,4) have r: "is_response d" by (simp add: is_response_def)
    from assms(5) hs
    have "\<forall>i. py_int env (or_null (get d ''id'')) = Inr i \<longrightarrow> handlers ?c i = None" by simp
    from handle_unknown_response [OF r this] False show ?thesis
      by (simp add: n miss_log_def emit_def split: sum.splits)
  qed
  moreover have "calls (miss_log env d content) = []"
    by (simp add: miss_log_def is_call_def split: sum.splits)
  moreover have "\<exists>e. last (miss_log env d content) = Printf_error_handling e"
    by (simp add: miss_log_def split: sum.splits)
  ultimately show ?thesis
    using stdout_iteration_dispatch [OF assms(1,2)] read_stdout_dispatch [OF assms(1,2), of n]
    by simp
qed

lemma readline_line:
  assumes "CHR 0x0A \<notin> set l"
  shows "readline \<lparr>data = l @ CHR 0x0A # r, ending = e\<rparr>
         = Inr (l @ [CHR 0x0A], \<lparr>data = r, ending = e\<rparr>)"
proof -
  from assms have "\<forall>b \<in> set l. b \<noteq> CHR 0x0A" by auto
  then have "dropWhile (\<lambda>b. b \<noteq> CHR 0x0A) (l @ CHR 0x0A # r) = CHR 0x0A # r"
    and "takeWhile (\<lambda>b. b \<noteq> CHR 0x0A) (l @ CHR 0x0A # r) = l"
    by (simp_all add: dropWhile_append3 takeWhile_append2)
  then show ?thesis by (simp add: readline_def)
qed

lemma dec_nat_nonempty: "dec_nat n \<noteq> []"
  by (subst dec_nat.simps) simp

lemma dec_nat_all_digits: "list_all is_digit (dec_nat n)"
  using dec_nat_digits [of _ n] by (auto simp: list_all_iff is_digit_def)

lemma digits_val_snoc:
  "is_digit d \<Longrightarrow> digits_val (ds @ [d]) = 10 * digits_val ds + (d - 48)"
  by (simp add: digits_val_def)

lemma digits_val_dec_nat: "digits_val (dec_nat n) = n"
proof (induction n rule: dec_nat.induct)
  case (1 n)
  show ?case
  proof (cases "n < 10")
    case True
    then show ?thesis by (simp add: dec_nat.simps [of n] digits_val_def is_digit_def)
  next
    case False
    have d: "is_digit (48 + n mod 10)" by (simp add: is_digit_def)
    from False have "digits_val (dec_nat n) = 10 * digits_val (dec_nat (n div 10)) + n mod 10"
      by (simp add: dec_nat.simps [of n] digits_val_snoc [OF d])
    with False "1.IH" show ?thesis by simp
  qed
qed

lemma int_of_text_dec_nat: "int_of_text (dec_nat n) = Inr (int n)"
  using int_of_text_digits [OF dec_nat_nonempty dec_nat_all_digits, of n]
  by (simp add: digits_val_dec_nat)

lemma of_char_char_of_digits:
  assumes "list_all is_digit ds"
  shows "map of_char (map char_of ds :: bytes) = ds"
proof -
  have "of_char (char_of c :: char) = c" if "c \<in> set ds" for c :: nat
  proof -
    from that assms have "c < 256" by (auto simp: list_all_iff is_digit_def)
    then show ?thesis by simp
  qed
  then show ?thesis by (simp add: map_idI)
qed

lemma int_of_bytes_dec_nat: "int_of_bytes (map char_of (dec_nat n)) = Inr (int n)"
  by (simp only: int_of_bytes_def of_char_char_of_digits [OF dec_nat_all_digits]
      int_of_text_dec_nat)

lemma header_facts:
  "ContentLengthHeader \<noteq> []" "\<not> is_space (of_char (hd ContentLengthHeader))"
  "CHR 0x0A \<notin> set ContentLengthHeader" "length ContentLengthHeader = 16"
  by (simp_all add: ContentLengthHeader_def is_space_def)

lemma rev_crlf: "rev crlf = [CHR 0x0A, CHR 0x0D]"
  by (simp add: crlf_def)

lemma strip_header_line:
  assumes "ds \<noteq> []" and "list_all is_digit ds"
  shows "strip (ContentLengthHeader @ map char_of ds @ crlf) = ContentLengthHeader @ map char_of ds"
proof -
  let ?sp = "\<lambda>x. is_space (of_char x)"
  let ?D = "map char_of ds :: bytes"
  from assms have "is_digit (last ds)" by (simp add: list_all_iff)
  then have "last ds < 256" "\<not> is_space (last ds)"
    by (simp_all add: digits_not_space) (simp add: is_digit_def)
  then have nsp: "\<not> ?sp (last ?D)" using assms(1) by (simp add: last_map)
  have 1: "dropWhile ?sp (ContentLengthHeader @ ?D @ crlf) = ContentLengthHeader @ ?D @ crlf"
    using header_facts(1,2) by (simp add: dropWhile_eq_self_iff)
  have "dropWhile ?sp (rev (ContentLengthHeader @ ?D @ crlf))
      = dropWhile ?sp ([CHR 0x0A, CHR 0x0D] @ (rev ?D @ rev ContentLengthHeader))"
    by (simp only: rev_append rev_crlf append_assoc)
  also have "\<dots> = dropWhile ?sp (rev ?D @ rev ContentLengthHeader)"
    by (simp add: is_space_def)
  also have "\<dots> = rev ?D @ rev ContentLengthHeader"
    using nsp assms(1) by (simp add: dropWhile_eq_self_iff hd_append hd_rev)
  finally show ?thesis unfolding strip_def 1 by simp
qed

lemma strip_crlf: "strip crlf = []"
  by (simp add: strip_def crlf_def is_space_def)

lemma newline_not_in_digits:
  assumes "list_all is_digit ds"
  shows "CHR 0x0A \<notin> set (ContentLengthHeader @ map char_of ds @ [CHR 0x0D])"
proof -
  have "CHR 0x0A \<notin> set (map char_of ds :: bytes)"
  proof
    assume "CHR 0x0A \<in> set (map char_of ds :: bytes)"
    then obtain c where c: "c \<in> set ds" and eq: "CHR 0x0A = (char_of c :: char)"
      by (auto simp del: char_of_eq_iff)
    from c assms have b: "c < 256" "48 \<le> c" by (auto simp: list_all_iff is_digit_def)
    from eq have "(of_char (CHR 0x0A) :: nat) = of_char (char_of c :: char)" by (rule arg_cong)
    with b show False by simp
  qed
  then show ?thesis using header_facts(3) by simp
qed

lemma read_headers_frame:
  "read_headers \<lparr>data = frame body @ after, ending = e\<rparr> 0
     = (Inr (int (length body)), \<lparr>data = body @ after, ending = e\<rparr>)"
proof -
  let ?ds = "dec_nat (length body)"
  let ?h = "ContentLengthHeader @ map char_of ?ds :: bytes"
  let ?ch1 = "\<lparr>data = crlf @ body @ after, ending = e\<rparr>"
  let ?ch2 = "\<lparr>data = body @ after, ending = e\<rparr>"
  have d: "frame body @ after =
      (ContentLengthHeader @ map char_of ?ds @ [CHR 0x0D]) @ CHR 0x0A # (crlf @ body @ after)"
    by (simp add: frame_def crlf_def)
  have "readline \<lparr>data = frame body @ after, ending = e\<rparr> =
      Inr ((ContentLengthHeader @ map char_of ?ds @ [CHR 0x0D]) @ [CHR 0x0A], ?ch1)"
    unfolding d by (rule readline_line [OF newline_not_in_digits [OF dec_nat_all_digits]])
  then have r1: "readline \<lparr>data = frame body @ after, ending = e\<rparr> =
      Inr (ContentLengthHeader @ map char_of ?ds @ crlf, ?ch1)"
    by (simp add: crlf_def)
  have "crlf @ body @ after = [CHR 0x0D] @ CHR 0x0A # (body @ after)" by (simp add: crlf_def)
  then have r2: "readline ?ch1 = Inr (crlf, ?ch2)"
    using readline_line [of "[CHR 0x0D]" "body @ after" e] by (simp add: crlf_def)
  have s1: "strip (ContentLengthHeader @ map char_of ?ds @ crlf) = ?h"
    by (rule strip_header_line [OF dec_nat_nonempty dec_nat_all_digits])
  have sw: "startswith ?h ContentLengthHeader"
    "drop (length ContentLengthHeader) ?h = map char_of ?ds" "?h \<noteq> []"
    using header_facts(1) by (simp_all add: startswith_def)
  have nsw: "\<not> startswith [] ContentLengthHeader"
    using header_facts(1) by (simp add: startswith_def)
  have 2: "read_headers ?ch1 (int (length body)) = (Inr (int (length body)), ?ch2)"
    by (subst read_headers.simps) (simp add: r2 strip_crlf nsw)
  show ?thesis
    by (subst read_headers.simps)
      (simp add: r1 s1 sw int_of_bytes_dec_nat 2 header_facts(1))
qed

lemma utf8_decode_ascii:
  "\<forall>b \<in> set bs. (of_char b :: nat) < 128 \<Longrightarrow> utf8_decode bs = Inr (map of_char bs)"
  by (induction bs) (simp_all add: Let_def)

lemma read_message_frame:
  assumes "process c = Some p"
    and "stdout_ch c = \<lparr>data = frame body @ after, ending = e\<rparr>"
    and "body \<noteq> []" and "utf8_decode body = Inr content"
  shows "read_message c = (Inr (Some content), c\<lparr>stdout_ch := \<lparr>data = after, ending = e\<rparr>\<rparr>)"
proof -
  have "read \<lparr>data = body @ after, ending = e\<rparr> (length body)
      = Inr (body, \<lparr>data = after, ending = e\<rparr>)"
    by (simp add: read_def)
  with assms show ?thesis
    by (simp add: read_message_def read_headers_frame)
qed

lemmas parse_defs = json_loads_def scan_number_def scan_nat_def float_follows_def starts_def
  skip_ws_def is_ws_def scan_char_def hex4_def hex_val_def unescape_def digits_val_def
  is_digit_def ascii_def

lemma loads_examples:
  "json_loads (map of_char body_result_99)
     = Inr (JObj [(ascii ''id'', JInt 99), (ascii ''result'', JNull)])"
  "json_loads (map of_char body_result_1) = Inr (JObj result_for_1)"
  "json_loads (map of_char body_not_json) = Inl JSONDecodeError"
  by (simp_all add: parse_defs body_result_99_def body_result_1_def body_not_json_def
      result_for_1_def)

lemma read_stdout_registered:
  assumes "read_message c = (Inr (Some content), c1)" and "loads env content = Inr (JObj d)"
    and "is_response d" and "py_int env (or_null (get d ''id'')) = Inr i"
    and "handlers c i = Some h" and "truthy env h"
    and "call env h (or_null (get d ''result'')) = None"
  shows "read_stdout env (Suc n) c =
     read_stdout env n
       (c1\<lparr>trace := trace c1 @ [Debug_got_json (take 200 content),
                                 Call h (or_null (get d ''result''))]\<rparr>)"
proof -
  let ?c = "noted c1 d content"
  have n: "?c = emit (Debug_got_json (take 200 content)) c1"
    by (rule noted_response [OF assms(3)])
  have "handlers ?c i = Some h" by (simp add: n read_message_fields(1) [OF assms(1)] assms(5))
  from handle_registered_response [OF assms(3,4) this assms(6)]
  have "handle_payload env ?c d =
      c1\<lparr>trace := trace c1 @ [Debug_got_json (take 200 content),
                                 Call h (or_null (get d ''result''))]\<rparr>"
    by (simp add: assms(7) n emit_def)
  with read_stdout_dispatch [OF assms(1,2), of n] show ?thesis by simp
qed

text \<open>
  C3 fails on the code. When the body of a message does not parse, \<open>json.loads\<close>
  raises an exception that is not an \<open>IOError\<close>; neither \<open>except IOError\<close> of
  \<open>read_stdout\<close> catches it, so the iteration logs nothing and the exception leaves the
  loop: \<open>read_stdout\<close> ends there and reads no further message.
\<close>

theorem unparseable_body_ends_loop:
  assumes "read_message c = (Inr (Some content), c1)"
    and "loads env content = Inl e" and "\<not> is_IOError e"
  shows "stdout_iteration env c = (Raise e, c1)
     \<and> read_stdout env (Suc n) c = (Raised e, c1)
     \<and> trace c1 = trace c"
  using assms read_message_process [OF assms(1)] read_message_fields(2) [OF assms(1)]
  by (auto simp: stdout_iteration_def parse_and_dispatch_def split: option.splits)

lemma stdout_iteration_Return:
  assumes "stdout_iteration env c = (Return, c')"
  shows "process c' = None"
  using assms
  by (auto simp: stdout_iteration_def split: prod.splits option.splits if_splits sum.splits)

lemma read_stdout_Returned:
  assumes "read_stdout env n c = (Returned, c')"
  shows "process c' = None"
  using assms
proof (induction n arbitrary: c)
  case 0
  then show ?case by (auto split: option.splits)
next
  case (Suc n)
  show ?case
  proof (cases "stdout_iteration env c")
    case (Pair f c2)
    with Suc.prems show ?thesis
      by (cases f) (auto split: option.splits dest: Suc.IH stdout_iteration_Return)
  qed
qed

lemma read_stderr_no_process:
  "process c = None \<Longrightarrow> read_stderr env m c = (Raised AttributeError, c)"
  by (cases m) simp_all

text \<open>
  C9 fails on the code. When \<open>read_stdout\<close> has left through its \<open>except IOError\<close>,
  \<open>self.process\<close> is \<open>None\<close>. From then on every pass of \<open>read_stderr\<close> raises
  \<open>AttributeError\<close> at its next use of \<open>self.process\<close>, which its \<open>except IOError\<close>
  does not catch: however long the process would live, the loop ends with this
  exception and not through its own check of the process.
\<close>

theorem stderr_loop_dies_after_stdout_failure:
  assumes "read_stdout env n c = (Returned, c')"
  shows "process c' = None
     \<and> stderr_iteration env c' = (Raise AttributeError, c')
     \<and> read_stderr env m c' = (Raised AttributeError, c')"
  using read_stdout_Returned [OF assms]
  by (simp add: read_stderr_no_process stderr_iteration_def)

lemma utf8_encode_format_request:
  "utf8_encode (format_request p) = Inr (map char_of (format_request p))"
  by (rule utf8_encode_ascii) (blast dest: format_request_ascii)

lemma send_payload_written:
  assumes "process c = Some p" and "\<not> stdin_broken c"
  shows "send_payload c x = (None, c\<lparr>stdin_data := stdin_data c @ map char_of (format_request x)\<rparr>)"
  using assms by (simp add: send_payload_def utf8_encode_format_request)

lemma listening_fields:
  "process (listening b) = Some Proc" "handlers (listening b) = [1 \<mapsto> 7]"
  "trace (listening b) = [Debug_request 1 (ascii ''initialize'')]"
  "stdout_ch (listening b) = \<lparr>data = b, ending = EOF\<rparr>"
  by (simp_all add: listening_def initialize_sent_def send_request_def Let_def
      send_payload_written init_def emit_def example_request_def)

lemma body_facts:
  "body_result_99 \<noteq> []" "body_result_1 \<noteq> []" "body_not_json \<noteq> []"
  "utf8_decode body_result_99 = Inr (map of_char body_result_99)"
  "utf8_decode body_result_1 = Inr (map of_char body_result_1)"
  "utf8_decode body_not_json = Inr (map of_char body_not_json)"
  by (simp_all add: body_result_99_def body_result_1_def body_not_json_def utf8_decode_ascii)

lemma result_for_99_shape:
  "is_response result_for_99" "py_int env (or_null (get result_for_99 ''id'')) = Inr 99"
  by (simp_all add: result_for_99_def is_response_def has_key_def get_def or_null_def
      py_int_def ascii_def)

theorem unknown_id_is_logged_and_skipped_witness:
  "fst (read_stdout plain_env 2 (listening (frame body_result_99 @ frame body_result_1))) = Ended
   \<and> trace (snd (read_stdout plain_env 2 (listening (frame body_result_99 @ frame body_result_1))))
     = [Debug_request 1 (ascii ''initialize''),
        Debug_got_json (map of_char body_result_99),
        Debug_error_handling_response 99, Printf_error_handling KeyError,
        Debug_got_json (map of_char body_result_1),
        Call 7 (JObj []),
        Debug_stdout_ended]"
proof -
  let ?c = "listening (frame body_result_99 @ frame body_result_1)"
  let ?c1 = "?c\<lparr>stdout_ch := \<lparr>data = frame body_result_1, ending = EOF\<rparr>\<rparr>"
  let ?c2 = "?c1\<lparr>trace := trace ?c1 @ miss_log plain_env result_for_99 (map of_char body_result_99)\<rparr>"
  let ?c3 = "?c2\<lparr>stdout_ch := \<lparr>data = [], ending = EOF\<rparr>\<rparr>"
  have short: "take 200 (map of_char body_result_99) = (map of_char body_result_99 :: ustr)"
    "take 200 (map of_char body_result_1) = (map of_char body_result_1 :: ustr)"
    by (simp_all add: body_result_99_def body_result_1_def)
  have m1: "read_message ?c = (Inr (Some (map of_char body_result_99)), ?c1)"
    by (rule read_message_frame [OF listening_fields(1) listening_fields(4) body_facts(1,4)])
  have l1: "loads plain_env (map of_char body_result_99) = Inr (JObj result_for_99)"
    by (simp add: plain_env_def loads_examples result_for_99_def)
  have u1: "\<forall>i. py_int plain_env (or_null (get result_for_99 ''id'')) = Inr i
              \<longrightarrow> handlers ?c i = None"
    by (simp add: result_for_99_shape listening_fields)
  have k1: "has_key result_for_99 ''id''" "\<not> has_key result_for_99 ''method''"
    "\<not> has_key result_for_99 ''error''"
    using result_for_99_shape(1) by (simp_all add: is_response_def)
  from unknown_id_is_logged_and_skipped [OF m1 l1 k1(1,2) u1, of 1]
  have step1: "read_stdout plain_env 2 ?c = read_stdout plain_env 1 ?c2"
    by (simp add: numeral_2_eq_2)
  have m2: "read_message ?c2 = (Inr (Some (map of_char body_result_1)), ?c3)"
    using read_message_frame [of ?c2 Proc body_result_1 "[]" EOF, OF _ _ body_facts(2,5)]
    by (simp add: listening_fields)
  have l2: "loads plain_env (map of_char body_result_1) = Inr (JObj result_for_1)"
    by (simp add: plain_env_def loads_examples)
  have h2: "handlers ?c2 1 = Some 7" "truthy plain_env (7::nat)"
    "call plain_env (7::nat) (or_null (get result_for_1 ''result'')) = None"
    by (simp_all add: listening_fields plain_env_def)
  from read_stdout_registered [OF m2 l2 result_for_1_shape(1,2) h2, of 0]
  have step2: "read_stdout plain_env 1 ?c2 =
      read_stdout plain_env 0 (?c3\<lparr>trace := trace ?c3 @ [Debug_got_json (map of_char body_result_1),
          Call 7 (JObj [])]\<rparr>)"
    by (simp add: short result_for_1_shape)
  show ?thesis
    unfolding step1 step2
    by (simp add: listening_fields miss_log_def result_for_99_shape short k1)
qed

lemma failing_fields:
  "process (failing b) = Some Proc" "stdout_ch (failing b) = \<lparr>data = [], ending = Broken\<rparr>"
  "stderr_ch (failing b) = \<lparr>data = b, ending = EOF\<rparr>"
  "trace (failing b) = [Debug_request 1 (ascii ''initialize'')]"
  by (simp_all add: failing_def initialize_sent_def send_request_def Let_def
      send_payload_written init_def emit_def example_request_def)

lemma read_stdout_failing: "read_stdout plain_env 1 (failing b) = (Returned, failed b)"
proof -
  have "readline \<lparr>data = [], ending = Broken\<rparr> = Inl IOError"
    by (simp add: readline_def)
  then have "read_headers \<lparr>data = [], ending = Broken\<rparr> 0
      = (Inl IOError, \<lparr>data = [], ending = Broken\<rparr>)"
    by (subst read_headers.simps) simp
  then have "read_message (failing b) = (Inl IOError, failing b)"
    by (simp add: read_message_def failing_fields)
  then show ?thesis
    by (simp add: stdout_iteration_def is_IOError_def failing_fields failed_def)
qed

theorem stderr_loop_dies_after_stdout_failure_witness:
  "read_stdout plain_env 1 (failing ''warming up'') = (Returned, failed ''warming up'')
   \<and> process (failed ''warming up'') = None
   \<and> read_stderr plain_env 3 (failed ''warming up'')
       = (Raised AttributeError, failed ''warming up'')
   \<and> trace (failed ''warming up'')
       = [Debug_request 1 (ascii ''initialize''), Printf_stdout_ending, Terminate]
   \<and> fst (read_stderr plain_env 1 (failing ''warming up'')) = Ended"
proof -
  note r = read_stdout_failing [of "''warming up''"]
  from stderr_loop_dies_after_stdout_failure [OF r, of 3]
  have "process (failed ''warming up'') = None
     \<and> read_stderr plain_env 3 (failed ''warming up'')
         = (Raised AttributeError, failed ''warming up'')"
    by simp
  moreover have "trace (failed ''warming up'')
       = [Debug_request 1 (ascii ''initialize''), Printf_stdout_ending, Terminate]"
    by (simp add: failed_def failing_fields)
  moreover have "fst (read_stderr plain_env 1 (failing ''warming up'')) = Ended"
    by (simp add: stderr_iteration_def readline_def failing_fields)
  ultimately show ?thesis using r by simp
qed

theorem unparseable_body_ends_loop_witness:
  "read_stdout plain_env 2 (listening (frame body_not_json @ frame body_result_1))
     = (Raised JSONDecodeError,
        (listening (frame body_not_json @ frame body_result_1))
          \<lparr>stdout_ch := \<lparr>data = frame body_result_1, ending = EOF\<rparr>\<rparr>)
   \<and> trace (snd (read_stdout plain_env 2 (listening (frame body_not_json @ frame body_result_1))))
     = [Debug_request 1 (ascii ''initialize'')]"
proof -
  let ?c = "listening (frame body_not_json @ frame body_result_1)"
  let ?c1 = "?c\<lparr>stdout_ch := \<lparr>data = frame body_result_1, ending = EOF\<rparr>\<rparr>"
  have m1: "read_message ?c = (Inr (Some (map of_char body_not_json)), ?c1)"
    by (rule read_message_frame [OF listening_fields(1) listening_fields(4) body_facts(3,6)])
  have l1: "loads plain_env (map of_char body_not_json) = Inl JSONDecodeError"
    by (simp add: plain_env_def loads_examples)
  have e: "\<not> is_IOError JSONDecodeError" by (simp add: is_IOError_def)
  from unparseable_body_ends_loop [OF m1 l1 e, of 1]
  show ?thesis by (simp add: numeral_2_eq_2 listening_fields)
qed

subsection \<open>Encoding and decoding\<close>

lemma str_int_nat: "str_int (int n) = dec_nat n"
  by (simp add: str_int_def)

lemma char_of_header: "map char_of (ascii ''Content-Length: '') = ContentLengthHeader"
  by (simp add: map_char_of_ascii ContentLengthHeader_def)

lemma encoded_is_frame:
  "map char_of (format_request p) = frame (map char_of (dumps p))"
  using char_of_crlf
  by (simp add: format_request_def Let_def frame_def crlf_def str_int_nat char_of_header)

lemma of_char_char_of_ascii:
  assumes "\<forall>c \<in> set s. c < (128::nat)"
  shows "map of_char (map char_of s :: bytes) = s"
proof -
  have "of_char (char_of c :: char) = c" if "c \<in> set s" for c :: nat
  proof -
    from that assms have "c < 256" by fastforce
    then show ?thesis by simp
  qed
  then show ?thesis by (simp add: map_idI)
qed

lemma utf8_decode_dumps: "utf8_decode (map char_of (dumps p)) = Inr (dumps p)"
proof -
  have a: "\<forall>c \<in> set (dumps p). c < 128" by (blast dest: dumps_ascii)
  then have "\<forall>b \<in> set (map char_of (dumps p) :: bytes). (of_char b :: nat) < 128"
    by auto
  then have "utf8_decode (map char_of (dumps p)) = Inr (map of_char (map char_of (dumps p) :: bytes))"
    by (rule utf8_decode_ascii)
  then show ?thesis by (simp only: of_char_char_of_ascii [OF a])
qed

lemma dumps_nonempty: "dumps p \<noteq> []"
  by (cases p) (simp_all add: ascii_def str_int_def dec_nat_nonempty encode_basestring_ascii_def)

subsection \<open>The parser reads back what the serialiser wrote\<close>

lemma hex_val_hex_digit: "d < 16 \<Longrightarrow> hex_val (hex_digit d) = Some d"
  by (cases "d < 10") (simp_all add: hex_val_def hex_digit_def)

lemma u_escape_hex_digits: "u_escape n = 0x5C # 0x75 # hex_digits n"
  by (simp add: u_escape_def hex_digits_def)

lemma length_hex_digits [simp]: "length (hex_digits n) = 4"
  by (simp add: hex_digits_def)

lemma hex_recombine:
  assumes "n < 65536"
  shows "((n div 4096 mod 16 * 16 + n div 256 mod 16) * 16 + n div 16 mod 16) * 16 + n mod 16
         = (n::nat)"
proof -
  define a where "a = n div 16"
  define b where "b = a div 16"
  define c where "c = b div 16"
  have d: "n div 256 = b" "n div 4096 = c"
    by (simp_all add: a_def b_def c_def div_mult2_eq)
  from assms have "c < 16" unfolding d(2) [symmetric] by simp
  then have 1: "c mod 16 * 16 + b mod 16 = b"
    by (simp add: c_def)
  have 2: "b * 16 + a mod 16 = a" by (simp add: b_def)
  have 3: "a * 16 + n mod 16 = n" by (simp add: a_def)
  show ?thesis unfolding d a_def [symmetric] 1 2 3 ..
qed

lemma hex4_hex_digits: "n < 65536 \<Longrightarrow> hex4 (hex_digits n @ t) = Some n"
  using hex_recombine [of n]
  by (simp add: hex4_def hex_digits_def hex_val_hex_digit)

lemma scan_char_u_escape:
  assumes "n < 65536" and "high_surrogate n \<longrightarrow> \<not> joins t"
  shows "scan_char 0x5C (0x75 # hex_digits n @ t) = Some (n, 5)"
proof (cases "high_surrogate n \<and> take 2 t = [0x5C, 0x75]")
  case True
  with assms(2) obtain u where u: "hex4 (drop 2 t) = Some u" "\<not> low_surrogate u"
    by (auto simp: joins_def split: option.splits)
  from True show ?thesis
    using u(2)
    by (simp add: scan_char_def hex4_hex_digits [OF assms(1)] u(1) high_surrogate_def
        low_surrogate_def)
next
  case False
  then show ?thesis
    by (auto simp: scan_char_def hex4_hex_digits [OF assms(1)] high_surrogate_def)
qed

lemma scan_char_pair:
  assumes "0x10000 \<le> c" and "c < 0x110000"
  shows "scan_char 0x5C
           (0x75 # hex_digits (0xD800 + (c - 0x10000) div 1024 mod 1024)
            @ 0x5C # 0x75 # hex_digits (0xDC00 + (c - 0x10000) mod 1024) @ t)
         = Some (c, 11)"
proof -
  define x where "x = c - 0x10000"
  define hi where "hi = 0xD800 + x div 1024 mod 1024"
  define lo where "lo = 0xDC00 + x mod 1024"
  from assms have x: "x < 0x100000" "c = 0x10000 + x" by (simp_all add: x_def)
  then have xd: "x div 1024 < 1024" by simp
  then have hi: "hi = 0xD800 + x div 1024" "0xD800 \<le> hi" "hi \<le> 0xDBFF" "hi < 65536"
    by (simp_all add: hi_def)
  have lo: "0xDC00 \<le> lo" "lo \<le> 0xDFFF" "lo < 65536"
    using mod_less_divisor [of 1024 x] by (simp_all add: lo_def)
  have val: "0x10000 + (hi - 0xD800) * 1024 + (lo - 0xDC00) = c"
    by (simp add: hi(1) lo_def x(2))
  have h1: "hex4 (hex_digits hi @ 0x5C # 0x75 # hex_digits lo @ t) = Some hi"
    by (rule hex4_hex_digits [OF hi(4)])
  have h2: "hex4 (hex_digits lo @ t) = Some lo"
    by (rule hex4_hex_digits [OF lo(3)])
  have "scan_char 0x5C (0x75 # hex_digits hi @ 0x5C # 0x75 # hex_digits lo @ t) = Some (c, 11)"
    using hi(2,3) lo(1,2) val by (simp add: scan_char_def h1 h2)
  then show ?thesis by (simp add: hi_def lo_def x_def)
qed

lemma scanstring_step:
  assumes "x \<noteq> 0x22" and "scan_char x (xs @ t) = Some (c, length xs)"
  shows "scanstring (x # xs @ t) =
     (case scanstring t of None \<Rightarrow> None | Some (s, r) \<Rightarrow> Some (c # s, r))"
  using assms by simp

lemma scanstring_escape:
  assumes "c < 0x110000" and "high_surrogate c \<longrightarrow> \<not> joins t"
  shows "scanstring (escape_char c @ t) =
     (case scanstring t of None \<Rightarrow> None | Some (s, r) \<Rightarrow> Some (c # s, r))"
proof -
  consider (short) "c = 0x5C \<or> c = 0x22 \<or> c = 0x08 \<or> c = 0x0C \<or> c = 0x0A \<or> c = 0x0D \<or> c = 0x09"
    | (plain) "c \<noteq> 0x5C" "c \<noteq> 0x22" "0x20 \<le> c" "c \<le> 0x7E"
    | (uni) "c \<noteq> 0x08" "c \<noteq> 0x0C" "c \<noteq> 0x0A" "c \<noteq> 0x0D" "c \<noteq> 0x09"
        "\<not> (0x20 \<le> c \<and> c \<le> 0x7E)" "c < 0x10000"
    | (pair) "0x10000 \<le> c"
    by linarith
  then show ?thesis
  proof cases
    case short
    then show ?thesis
      by (auto simp: escape_char_def scan_char_def unescape_def)
  next
    case plain
    then have e: "escape_char c = [c]" by (simp add: escape_char_def)
    from plain have "scan_char c ([] @ t) = Some (c, length ([]::ustr))"
      by (simp add: scan_char_def)
    from scanstring_step [OF plain(2) this] show ?thesis by (simp add: e)
  next
    case uni
    then have e: "escape_char c = 0x5C # (0x75 # hex_digits c)"
      by (auto simp: escape_char_def u_escape_hex_digits)
    have "scan_char 0x5C ((0x75 # hex_digits c) @ t) = Some (c, length (0x75 # hex_digits c))"
      using scan_char_u_escape [OF uni(7) assms(2)] by simp
    from scanstring_step [OF _ this] show ?thesis by (simp add: e)
  next
    case pair
    let ?hi = "0xD800 + (c - 0x10000) div 1024 mod 1024"
    let ?lo = "0xDC00 + (c - 0x10000) mod 1024"
    let ?xs = "0x75 # hex_digits ?hi @ 0x5C # 0x75 # hex_digits ?lo"
    from pair have e: "escape_char c = 0x5C # ?xs"
      by (simp add: escape_char_def u_escape_hex_digits)
    have "scan_char 0x5C (?xs @ t) = Some (c, length ?xs)"
      using scan_char_pair [OF pair assms(1), of t] by simp
    from scanstring_step [OF _ this] show ?thesis by (simp add: e)
  qed
qed

lemma not_joins_quote: "\<not> joins (0x22 # t)"
  by (simp add: joins_def)

lemma not_joins_escape:
  assumes "c < 0x110000" and "\<not> low_surrogate c"
  shows "\<not> joins (escape_char c @ t)"
proof -
  consider (short) "c = 0x5C \<or> c = 0x22 \<or> c = 0x08 \<or> c = 0x0C \<or> c = 0x0A \<or> c = 0x0D \<or> c = 0x09"
    | (plain) "c \<noteq> 0x5C" "c \<noteq> 0x22" "0x20 \<le> c" "c \<le> 0x7E"
    | (uni) "c \<noteq> 0x08" "c \<noteq> 0x0C" "c \<noteq> 0x0A" "c \<noteq> 0x0D" "c \<noteq> 0x09"
        "\<not> (0x20 \<le> c \<and> c \<le> 0x7E)" "c < 0x10000"
    | (pair) "0x10000 \<le> c"
    by linarith
  then show ?thesis
  proof cases
    case short
    then show ?thesis by (auto simp: escape_char_def joins_def)
  next
    case plain
    then show ?thesis by (simp add: escape_char_def joins_def)
  next
    case uni
    then have e: "escape_char c = 0x5C # 0x75 # hex_digits c"
      by (auto simp: escape_char_def u_escape_hex_digits)
    show ?thesis
      using assms(2) by (simp add: e joins_def hex4_hex_digits [OF uni(7)])
  next
    case pair
    let ?hi = "0xD800 + (c - 0x10000) div 1024 mod 1024"
    have "(c - 0x10000) div 1024 mod 1024 < 1024" by simp
    then have hi: "?hi < 65536" "\<not> low_surrogate ?hi"
      by (simp_all add: low_surrogate_def)
    from pair have e: "escape_char c =
        0x5C # 0x75 # hex_digits ?hi
        @ (0x5C # 0x75 # hex_digits (0xDC00 + (c - 0x10000) mod 1024))"
      by (simp add: escape_char_def u_escape_hex_digits)
    show ?thesis
      using hi(2) by (simp add: e joins_def hex4_hex_digits [OF hi(1)])
  qed
qed

lemma scanstring_escaped:
  "wf_str s \<Longrightarrow> scanstring (concat (map escape_char s) @ 0x22 # t) = Some (s, t)"
proof (induction s rule: wf_str.induct)
  case 1
  show ?case by simp
next
  case (2 c)
  then have "c < 0x110000" by simp
  from scanstring_escape [OF this, of "0x22 # t"] show ?case
    by (simp add: not_joins_quote)
next
  case (3 a b r)
  then have a: "a < 0x110000" and hl: "high_surrogate a \<longrightarrow> \<not> low_surrogate b"
    and w: "wf_str (b # r)" by auto
  from w have b: "b < 0x110000" by (cases r) simp_all
  let ?t = "concat (map escape_char (b # r)) @ 0x22 # t"
  have "high_surrogate a \<longrightarrow> \<not> joins ?t"
    using not_joins_escape [OF b, of "concat (map escape_char r) @ 0x22 # t"] hl by simp
  from scanstring_escape [OF a this] "3.IH" [OF w] show ?case by simp
qed

lemma scan_once_string:
  assumes "wf_str s"
  shows "scan_once (Suc n) (encode_basestring_ascii s @ t) = Inr (JStr s, t)"
  using scanstring_escaped [OF assms, of t]
  by (simp add: encode_basestring_ascii_def)

lemma ends_value_facts:
  assumes "ends_value t"
  shows "takeWhile is_digit t = []" and "dropWhile is_digit t = t" and "\<not> float_follows t"
    and "skip_ws t = t"
  using assms
  by (cases t; auto simp: ends_value_def is_digit_def float_follows_def skip_ws_def is_ws_def)+

lemma dec_nat_hd:
  "0 < n \<Longrightarrow> 49 \<le> hd (dec_nat n) \<and> hd (dec_nat n) \<le> 57"
proof (induction n rule: dec_nat.induct)
  case (1 n)
  show ?case
  proof (cases "n < 10")
    case True
    with "1.prems" show ?thesis by (simp add: dec_nat.simps [of n])
  next
    case False
    then have "0 < n div 10" by simp
    with False "1.IH" have "49 \<le> hd (dec_nat (n div 10)) \<and> hd (dec_nat (n div 10)) \<le> 57"
      by simp
    with False show ?thesis
      by (simp add: dec_nat.simps [of n] hd_append dec_nat_nonempty)
  qed
qed

lemma dec_nat_zero: "dec_nat 0 = [48]"
  by (simp add: dec_nat.simps)

lemma scan_nat_dec_nat:
  assumes "ends_value t"
  shows "scan_nat (dec_nat n @ t) = Some (n, t)"
proof (cases "n = 0")
  case True
  then show ?thesis by (simp add: dec_nat_zero scan_nat_def)
next
  case False
  obtain d ds where e: "dec_nat n = d # ds"
    using dec_nat_nonempty [of n] by (cases "dec_nat n") auto
  from False dec_nat_hd [of n] e have d: "49 \<le> d" "d \<le> 57" by simp_all
  from dec_nat_all_digits [of n] e have ds: "list_all is_digit ds" by simp
  then have "takeWhile is_digit (ds @ t) = ds" "dropWhile is_digit (ds @ t) = t"
    using ends_value_facts(1,2) [OF assms]
    by (simp_all add: takeWhile_append2 dropWhile_append2 list_all_iff)
  moreover have "digits_val (d # ds) = n"
    using digits_val_dec_nat [of n] by (simp add: e)
  ultimately show ?thesis
    using d by (simp add: scan_nat_def e)
qed

lemma scan_number_str_int:
  assumes "ends_value t"
  shows "scan_number (str_int i @ t) = Some (Inr (JInt i, t))"
proof (cases "i < 0")
  case True
  then show ?thesis
    by (simp add: scan_number_def str_int_def scan_nat_dec_nat [OF assms]
        ends_value_facts(3) [OF assms])
next
  case False
  obtain d ds where e: "dec_nat (nat i) = d # ds"
    using dec_nat_nonempty [of "nat i"] by (cases "dec_nat (nat i)") auto
  from dec_nat_all_digits [of "nat i"] e have "is_digit d" by simp
  then have "d \<noteq> 45" by (simp add: is_digit_def)
  then have "take 1 (dec_nat (nat i) @ t) \<noteq> [45]" by (simp add: e)
  with False show ?thesis
    using scan_nat_dec_nat [OF assms, of "nat i"]
    by (simp add: scan_number_def str_int_def ends_value_facts(3) [OF assms])
qed

lemma str_int_first: "\<exists>c r. str_int i = c # r \<and> (c = 0x2D \<or> is_digit c)"
proof (cases "i < 0")
  case True
  then show ?thesis by (simp add: str_int_def)
next
  case False
  obtain d ds where e: "dec_nat (nat i) = d # ds"
    using dec_nat_nonempty [of "nat i"] by (cases "dec_nat (nat i)") auto
  from dec_nat_all_digits [of "nat i"] e have "is_digit d" by simp
  with False e show ?thesis by (simp add: str_int_def)
qed

lemma dumps_first: "\<exists>c r. dumps v = c # r \<and> opens_value c"
proof (cases v)
  case (JInt i)
  with str_int_first [of i] show ?thesis by (auto simp: opens_value_def)
qed (auto simp: opens_value_def ascii_def encode_basestring_ascii_def)

lemma skip_ws_opens: "opens_value c \<Longrightarrow> skip_ws (c # r) = c # r"
  by (auto simp: opens_value_def skip_ws_def is_ws_def is_digit_def)

lemma skip_ws_dumps: "skip_ws (dumps v @ t) = dumps v @ t"
  using dumps_first [of v] by (auto simp: skip_ws_opens)

lemma skip_ws_space: "skip_ws (0x20 # t) = skip_ws t"
  by (simp add: skip_ws_def is_ws_def)

lemma scan_once_number:
  assumes "ends_value t"
  shows "scan_once (Suc n) (str_int i @ t) = Inr (JInt i, t)"
proof -
  obtain c r where e: "str_int i = c # r" and c: "c = 0x2D \<or> is_digit c"
    using str_int_first [of i] by blast
  from c have ne: "c \<noteq> 0x22" "c \<noteq> 0x7B" "c \<noteq> 0x5B" "c \<noteq> 0x6E" "c \<noteq> 0x74" "c \<noteq> 0x66"
    by (auto simp: is_digit_def)
  then have st: "\<not> starts (c # r @ t) ''null''" "\<not> starts (c # r @ t) ''true''"
    "\<not> starts (c # r @ t) ''false''"
    by (simp_all add: starts_def ascii_def)
  have "scan_number (c # r @ t) = Some (Inr (JInt i, t))"
    using scan_number_str_int [OF assms, of i] by (simp add: e)
  with ne st show ?thesis by (simp add: e)
qed

lemma scan_once_literals:
  "scan_once (Suc n) (ascii ''null'' @ t) = Inr (JNull, t)"
  "scan_once (Suc n) (ascii ''true'' @ t) = Inr (JBool True, t)"
  "scan_once (Suc n) (ascii ''false'' @ t) = Inr (JBool False, t)"
  by (simp_all add: ascii_def starts_def)

lemma reads_backD:
  "reads_back v \<Longrightarrow> need v \<le> n \<Longrightarrow> ends_value t \<Longrightarrow> scan_once n (dumps v @ t) = Inr (v, t)"
  by (simp add: reads_back_def)

lemma sep_eq: "ascii '', '' = [0x2C, 0x20]"
  by (simp add: ascii_def)

lemma ends_value_simps [simp]:
  "ends_value (0x2C # t)" "ends_value (0x5D # t)" "ends_value (0x7D # t)" "ends_value []"
  by (simp_all add: ends_value_def)

lemma skip_ws_closers [simp]:
  "skip_ws (0x2C # t) = 0x2C # t" "skip_ws (0x5D # t) = 0x5D # t"
  "skip_ws (0x7D # t) = 0x7D # t" "skip_ws (0x3A # t) = 0x3A # t"
  "skip_ws (0x22 # t) = 0x22 # t"
  by (simp_all add: skip_ws_def is_ws_def)

lemma scan_items_join:
  assumes "\<forall>x \<in> set xs. reads_back x" and "xs \<noteq> []"
    and "length xs + sum_list (map need xs) \<le> m"
  shows "scan_items m (join (ascii '', '') (map dumps xs) @ 0x5D # t) acc
         = Inr (JArr (acc @ xs), t)"
  using assms
proof (induction xs arbitrary: m acc)
  case Nil
  then show ?case by simp
next
  case (Cons x xs)
  from Cons.prems(3) obtain k where m: "m = Suc k" and k: "length xs + (need x + sum_list (map need xs)) \<le> k"
    by (cases m) auto
  from Cons.prems(1) have rb: "reads_back x" by simp
  show ?case
  proof (cases xs)
    case Nil
    have "scan_once k (dumps x @ 0x5D # t) = Inr (x, 0x5D # t)"
      using k by (intro reads_backD [OF rb]) simp_all
    then show ?thesis by (simp add: m Nil)
  next
    case (Cons y ys)
    let ?w = "join (ascii '', '') (map dumps xs) @ 0x5D # t"
    have j: "join (ascii '', '') (map dumps (x # xs)) @ 0x5D # t = dumps x @ 0x2C # 0x20 # ?w"
      by (simp add: Cons sep_eq)
    have 1: "scan_once k (dumps x @ 0x2C # 0x20 # ?w) = Inr (x, 0x2C # 0x20 # ?w)"
      using k by (intro reads_backD [OF rb]) simp_all
    have w: "skip_ws ?w = ?w"
    proof (cases ys)
      case Nil
      then show ?thesis using skip_ws_dumps [of y "0x5D # t"] by (simp add: Cons)
    next
      case (Cons z zs)
      then show ?thesis
        using skip_ws_dumps [of y "ascii '', '' @ join (ascii '', '') (map dumps (z # zs)) @ 0x5D # t"]
        by (simp add: \<open>xs = y # ys\<close>)
    qed
    have "scan_items k ?w (acc @ [x]) = Inr (JArr ((acc @ [x]) @ xs), t)"
      using Cons.prems(1) k by (intro Cons.IH) (simp_all add: Cons)
    then show ?thesis
      unfolding j by (simp add: m 1 skip_ws_space w)
  qed
qed

lemma dict_set_new: "k \<notin> fst ` set d \<Longrightarrow> dict_set d k v = d @ [(k, v)]"
  by (induction d) auto

lemma member_text_eq:
  "member_text kv =
     0x22 # concat (map escape_char (fst kv)) @ 0x22 # 0x3A # 0x20 # dumps (snd kv)"
  by (simp add: member_text_def encode_basestring_ascii_def ascii_def)

lemma dumps_JObj: "dumps (JObj kvs) = 0x7B # join (ascii '', '') (map member_text kvs) @ [0x7D]"
  by (simp add: member_text_def [abs_def])

lemma join_members_first:
  "kvs \<noteq> [] \<Longrightarrow> \<exists>r. join (ascii '', '') (map member_text kvs) = 0x22 # r"
proof (cases kvs)
  case (Cons kv r)
  then show ?thesis by (cases r) (simp_all add: member_text_eq)
qed simp

lemma scan_pairs_join:
  assumes "\<forall>kv \<in> set kvs. wf_str (fst kv) \<and> reads_back (snd kv)" and "kvs \<noteq> []"
    and "length kvs + sum_list (map (\<lambda>kv. need (snd kv)) kvs) \<le> m"
    and "distinct (map fst (acc @ kvs))"
  shows "scan_pairs m (tl (join (ascii '', '') (map member_text kvs)) @ 0x7D # t) acc
         = Inr (JObj (acc @ kvs), t)"
  using assms
proof (induction kvs arbitrary: m acc)
  case Nil
  then show ?case by simp
next
  case (Cons kv kvs)
  obtain key v where kv: "kv = (key, v)" by (cases kv)
  from Cons.prems(3) obtain k where m: "m = Suc k"
    and k: "length kvs + (need v + sum_list (map (\<lambda>kv. need (snd kv)) kvs)) \<le> k"
    by (cases m) (auto simp: kv)
  from Cons.prems(1) have wf: "wf_str key" and rb: "reads_back v" by (simp_all add: kv)
  from Cons.prems(4) have new: "key \<notin> fst ` set acc" by (auto simp: kv)
  let ?e = "concat (map escape_char key)"
  show ?case
  proof (cases kvs)
    case Nil
    have shape: "tl (join (ascii '', '') (map member_text (kv # kvs))) @ 0x7D # t
        = ?e @ 0x22 # 0x3A # 0x20 # dumps v @ 0x7D # t"
      by (simp add: Nil member_text_eq [of "(key, v)"] kv)
    have s: "scanstring (?e @ 0x22 # 0x3A # 0x20 # dumps v @ 0x7D # t)
        = Some (key, 0x3A # 0x20 # dumps v @ 0x7D # t)"
      by (rule scanstring_escaped [OF wf])
    have 1: "scan_once k (dumps v @ 0x7D # t) = Inr (v, 0x7D # t)"
      using k by (intro reads_backD [OF rb]) simp_all
    show ?thesis
      unfolding shape
      by (simp add: m s skip_ws_space skip_ws_dumps 1 dict_set_new [OF new] kv Nil)
  next
    case (Cons kv2 kvs2)
    obtain r where r: "join (ascii '', '') (map member_text kvs) = 0x22 # r"
      using join_members_first [of kvs] Cons by auto
    let ?w = "0x22 # r @ 0x7D # t"
    have shape: "tl (join (ascii '', '') (map member_text (kv # kvs))) @ 0x7D # t
        = ?e @ 0x22 # 0x3A # 0x20 # dumps v @ 0x2C # 0x20 # ?w"
      using r by (simp add: Cons member_text_eq [of "(key, v)"] kv sep_eq)
    have s: "scanstring (?e @ 0x22 # 0x3A # 0x20 # dumps v @ 0x2C # 0x20 # ?w)
        = Some (key, 0x3A # 0x20 # dumps v @ 0x2C # 0x20 # ?w)"
      by (rule scanstring_escaped [OF wf])
    have 1: "scan_once k (dumps v @ 0x2C # 0x20 # ?w) = Inr (v, 0x2C # 0x20 # ?w)"
      using k by (intro reads_backD [OF rb]) simp_all
    have d: "distinct (map fst ((acc @ [kv]) @ kvs))" using Cons.prems(4) by simp
    have "scan_pairs k (tl (join (ascii '', '') (map member_text kvs)) @ 0x7D # t) (acc @ [kv])
        = Inr (JObj ((acc @ [kv]) @ kvs), t)"
      using Cons.prems(1) k d by (intro Cons.IH) (simp_all add: Cons)
    then have 2: "scan_pairs k (r @ 0x7D # t) (acc @ [(key, v)]) = Inr (JObj (acc @ (key, v) # kvs), t)"
      by (simp add: r kv)
    show ?thesis
      unfolding shape
      by (simp add: m s skip_ws_space skip_ws_dumps 1 dict_set_new [OF new] kv 2)
  qed
qed

lemma opens_value_not_closer: "opens_value c \<Longrightarrow> c \<noteq> 0x5D \<and> c \<noteq> 0x7D \<and> c \<noteq> 0xFEFF"
  by (auto simp: opens_value_def is_digit_def)

lemma join_dumps_first:
  "xs \<noteq> [] \<Longrightarrow> \<exists>c r. join (ascii '', '') (map dumps xs) = c # r \<and> opens_value c"
proof (cases xs)
  case (Cons x r)
  obtain c r' where "dumps x = c # r'" "opens_value c" using dumps_first [of x] by blast
  with Cons show ?thesis by (cases r) simp_all
qed simp

lemma reads_back_JArr:
  assumes "\<forall>x \<in> set xs. reads_back x"
  shows "reads_back (JArr xs)"
  unfolding reads_back_def
proof (intro allI impI)
  fix n t
  assume n: "need (JArr xs) \<le> n" and t: "ends_value t"
  from n obtain k where k: "n = Suc k" and le: "length xs + sum_list (map need xs) \<le> k"
    by (cases n) auto
  show "scan_once n (dumps (JArr xs) @ t) = Inr (JArr xs, t)"
  proof (cases "xs = []")
    case True
    then show ?thesis by (simp add: k)
  next
    case False
    obtain c r where j: "join (ascii '', '') (map dumps xs) = c # r" and c: "opens_value c"
      using join_dumps_first [OF False] by blast
    have "scan_items k (join (ascii '', '') (map dumps xs) @ 0x5D # t) [] = Inr (JArr ([] @ xs), t)"
      by (rule scan_items_join [OF assms False le])
    then have s: "scan_items k (c # r @ 0x5D # t) [] = Inr (JArr xs, t)"
      by (simp add: j)
    from c have ne: "c \<noteq> 0x5D" using opens_value_not_closer by blast
    show ?thesis
      by (simp add: k j skip_ws_opens [OF c] ne s)
  qed
qed

lemma reads_back_JObj:
  assumes "\<forall>kv \<in> set kvs. wf_str (fst kv) \<and> reads_back (snd kv)"
    and "distinct (map fst kvs)"
  shows "reads_back (JObj kvs)"
  unfolding reads_back_def
proof (intro allI impI)
  fix n t
  assume n: "need (JObj kvs) \<le> n" and t: "ends_value t"
  from n obtain k where k: "n = Suc k"
    and le: "length kvs + sum_list (map (\<lambda>kv. need (snd kv)) kvs) \<le> k"
    by (cases n) auto
  show "scan_once n (dumps (JObj kvs) @ t) = Inr (JObj kvs, t)"
  proof (cases "kvs = []")
    case True
    then show ?thesis by (simp add: k)
  next
    case False
    obtain r where j: "join (ascii '', '') (map member_text kvs) = 0x22 # r"
      using join_members_first [OF False] by blast
    have d: "distinct (map fst ([] @ kvs))" using assms(2) by simp
    have "scan_pairs k (tl (join (ascii '', '') (map member_text kvs)) @ 0x7D # t) []
        = Inr (JObj ([] @ kvs), t)"
      by (rule scan_pairs_join [OF assms(1) False le d])
    then have s: "scan_pairs k (r @ 0x7D # t) [] = Inr (JObj kvs, t)"
      by (simp add: j)
    show ?thesis
      unfolding dumps_JObj by (simp add: k j s)
  qed
qed

lemma reads_back_JNull: "reads_back JNull"
  unfolding reads_back_def
proof (intro allI impI)
  fix n t
  assume "need JNull \<le> n"
  then obtain k where k: "n = Suc k" by (cases n) auto
  show "scan_once n (dumps JNull @ t) = Inr (JNull, t)"
    unfolding k dumps.simps by (rule scan_once_literals)
qed

lemma reads_back_JBool: "reads_back (JBool b)"
  unfolding reads_back_def
proof (intro allI impI)
  fix n t
  assume "need (JBool b) \<le> n"
  then obtain k where k: "n = Suc k" by (cases n) auto
  show "scan_once n (dumps (JBool b) @ t) = Inr (JBool b, t)"
  proof (cases b)
    case True
    then show ?thesis by (simp only: k dumps.simps if_True scan_once_literals)
  next
    case False
    then show ?thesis by (simp only: k dumps.simps if_False scan_once_literals)
  qed
qed

lemma reads_back_JInt: "reads_back (JInt i)"
  unfolding reads_back_def
proof (intro allI impI)
  fix n t
  assume "need (JInt i) \<le> n" and t: "ends_value t"
  then obtain k where k: "n = Suc k" by (cases n) auto
  show "scan_once n (dumps (JInt i) @ t) = Inr (JInt i, t)"
    unfolding k dumps.simps by (rule scan_once_number [OF t])
qed

lemma reads_back_JStr:
  assumes "wf_str s"
  shows "reads_back (JStr s)"
  unfolding reads_back_def
proof (intro allI impI)
  fix n t
  assume "need (JStr s) \<le> n"
  then obtain k where k: "n = Suc k" by (cases n) auto
  show "scan_once n (dumps (JStr s) @ t) = Inr (JStr s, t)"
    unfolding k dumps.simps by (rule scan_once_string [OF assms])
qed

lemma reads_back_wf: "wf_json v \<Longrightarrow> reads_back v"
proof (induction v)
  case (JArr xs)
  then show ?case by (intro reads_back_JArr) (auto simp: list_all_iff)
next
  case (JObj kvs)
  show ?case
  proof (rule reads_back_JObj)
    show "\<forall>kv \<in> set kvs. wf_str (fst kv) \<and> reads_back (snd kv)"
    proof
      fix kv assume m: "kv \<in> set kvs"
      obtain a b where kv: "kv = (a, b)" by (cases kv)
      with m JObj.prems have "wf_str a" "wf_json b" by (auto simp: list_all_iff)
      moreover have "reads_back b" using JObj.IH [OF m, of b] \<open>wf_json b\<close> by (simp add: kv)
      ultimately show "wf_str (fst kv) \<and> reads_back (snd kv)" by (simp add: kv)
    qed
    show "distinct (map fst kvs)" using JObj.prems by simp
  qed
qed (simp_all add: reads_back_JNull reads_back_JBool reads_back_JInt reads_back_JStr)

lemma length_join:
  "xs \<noteq> [] \<Longrightarrow>
     length (join sep xs) + length sep = sum_list (map length xs) + length sep * length xs"
  by (induction sep xs rule: join.induct) simp_all

lemma dumps_length_pos: "0 < length (dumps v)"
  using dumps_first [of v] by auto

lemma need_le_length: "need v \<le> length (dumps v)"
proof (induction v)
  case (JArr xs)
  show ?case
  proof (cases "xs = []")
    case False
    have 1: "sum_list (map need xs) \<le> sum_list (map (\<lambda>x. length (dumps x)) xs)"
      using JArr by (intro sum_list_mono) simp
    have "length (join (ascii '', '') (map dumps xs)) + 2
        = sum_list (map (\<lambda>x. length (dumps x)) xs) + 2 * length xs"
      using length_join [of "map dumps xs" "ascii '', ''"] False
      by (simp add: ascii_def comp_def)
    moreover have "1 \<le> length xs" using False by (cases xs) simp_all
    moreover have "need (JArr xs) = Suc (length xs + sum_list (map need xs))"
      and "length (dumps (JArr xs)) = length (join (ascii '', '') (map dumps xs)) + 2"
      by simp_all
    ultimately show ?thesis using 1 by linarith
  qed simp
next
  case (JObj kvs)
  show ?case
  proof (cases "kvs = []")
    case False
    have 1: "sum_list (map (\<lambda>kv. need (snd kv)) kvs) \<le> sum_list (map (\<lambda>kv. length (member_text kv)) kvs)"
    proof (rule sum_list_mono)
      fix kv assume m: "kv \<in> set kvs"
      obtain a b where kv: "kv = (a, b)" by (cases kv)
      have "need b \<le> length (dumps b)" using JObj [OF m, of b] by (simp add: kv)
      then show "need (snd kv) \<le> length (member_text kv)" by (simp add: kv member_text_eq)
    qed
    have "length (join (ascii '', '') (map member_text kvs)) + 2
        = sum_list (map (\<lambda>kv. length (member_text kv)) kvs) + 2 * length kvs"
      using length_join [of "map member_text kvs" "ascii '', ''"] False
      by (simp add: ascii_def comp_def)
    moreover have "1 \<le> length kvs" using False by (cases kvs) simp_all
    moreover have "need (JObj kvs) = Suc (length kvs + sum_list (map (\<lambda>kv. need (snd kv)) kvs))"
      and "length (dumps (JObj kvs)) = length (join (ascii '', '') (map member_text kvs)) + 2"
      unfolding dumps_JObj by simp_all
    ultimately show ?thesis using 1 by linarith
  qed simp
qed (simp_all add: dumps_length_pos [of "JInt i" for i, simplified] ascii_def
       encode_basestring_ascii_def Suc_leI)

lemma json_loads_dumps:
  assumes "wf_json v"
  shows "json_loads (dumps v) = Inr v"
proof -
  obtain c r where d: "dumps v = c # r" and c: "opens_value c"
    using dumps_first [of v] by blast
  from c have bom: "take 1 (dumps v) \<noteq> [0xFEFF]"
    using opens_value_not_closer [of c] by (simp add: d)
  have sk: "skip_ws (dumps v) = dumps v" using skip_ws_dumps [of v "[]"] by simp
  have "scan_once (Suc (Suc (length (dumps v) + length (dumps v)))) (dumps v @ [])
      = Inr (v, [])"
    using need_le_length [of v]
    by (intro reads_backD [OF reads_back_wf [OF assms]]) simp_all
  then have "scan_once (Suc (Suc (length (dumps v) + length (dumps v)))) (dumps v) = Inr (v, [])"
    by simp
  moreover have "skip_ws [] = []" by (simp add: skip_ws_def)
  ultimately show ?thesis
    using bom by (simp add: json_loads_def sk del: scan_once.simps)
qed

text \<open>
  C2. A well-formed payload \<open>P\<close>, a dictionary, is encoded as \<open>send_payload\<close> does it
  (\<open>format_request\<close>, then UTF-8), and the bytes arrive on the channel that \<open>read_stdout\<close>
  reads, where \<open>json.loads\<close> is the parser above. Then the reader takes exactly the
  serialised text of \<open>P\<close> off the channel, however many characters beyond ASCII the
  strings of \<open>P\<close> hold, and leaves what follows it untouched; the parser gives \<open>P\<close> back
  for that text; and the message that the iteration dispatches is \<open>P\<close>.
\<close>

theorem decode_encode_round_trip:
  assumes "loads env = json_loads" and "wf_json (JObj d)"
    and "utf8_encode (format_request (JObj d)) = Inr b"
    and "process c = Some p" and "stdout_ch c = \<lparr>data = b @ after, ending = e\<rparr>"
  shows "read_message c =
           (Inr (Some (dumps (JObj d))), c\<lparr>stdout_ch := \<lparr>data = after, ending = e\<rparr>\<rparr>)
     \<and> loads env (dumps (JObj d)) = Inr (JObj d)
     \<and> stdout_iteration env c =
           (Continue,
            handle_payload env
              (noted (c\<lparr>stdout_ch := \<lparr>data = after, ending = e\<rparr>\<rparr>) d (dumps (JObj d))) d)"
proof -
  let ?body = "map char_of (dumps (JObj d)) :: bytes"
  have l: "loads env (dumps (JObj d)) = Inr (JObj d)"
    by (simp only: assms(1) json_loads_dumps [OF assms(2)])
  from assms(3) have b: "b = frame ?body"
    by (simp add: utf8_encode_format_request encoded_is_frame)
  have ne: "?body \<noteq> []" using dumps_nonempty [of "JObj d"] by simp
  have m: "read_message c =
      (Inr (Some (dumps (JObj d))), c\<lparr>stdout_ch := \<lparr>data = after, ending = e\<rparr>\<rparr>)"
    using assms(5) unfolding b
    by (rule read_message_frame [OF assms(4) _ ne utf8_decode_dumps])
  from m l stdout_iteration_dispatch [OF m l] show ?thesis by simp
qed

lemmas dumps_defs = encode_basestring_ascii_def escape_char_def u_escape_def hex_digit_def
  str_int_def dec_nat.simps ascii_def

lemma dumps_did_open:
  "dumps (JObj did_open) = ascii
     ''{\"jsonrpc\": \"2.0\", \"method\": \"textDocument/didOpen\", \"params\": {\"text\": \"caf''
     @ [0x5C] @ ascii ''u00e9 '' @ [0x5C] @ ascii ''ud83d'' @ [0x5C] @ ascii ''ude00''
     @ [0x5C] @ ascii ''\"'' @ [0x5C, 0x5C] @ [0x5C] @ ascii ''n\", \"version\": -3, \"tags\": [null, true, [], {}]}}''"
  by (simp add: did_open_def dumps_defs)

lemma loads_did_open: "json_loads (dumps (JObj did_open)) = Inr (JObj did_open)"
  unfolding dumps_did_open by (simp add: parse_defs did_open_def)

theorem decode_encode_round_trip_witness:
  "loads plain_env = json_loads \<and> wf_json (JObj did_open)
   \<and> utf8_encode (format_request (JObj did_open)) = Inr did_open_bytes
   \<and> read_message (listening (did_open_bytes @ frame body_result_1))
       = (Inr (Some (dumps (JObj did_open))),
          (listening (did_open_bytes @ frame body_result_1))
            \<lparr>stdout_ch := \<lparr>data = frame body_result_1, ending = EOF\<rparr>\<rparr>)
   \<and> json_loads (dumps (JObj did_open)) = Inr (JObj did_open)
   \<and> trace (snd (stdout_iteration plain_env (listening (did_open_bytes @ frame body_result_1))))
       = [Debug_request 1 (ascii ''initialize''),
          Debug_got_json (take 200 (dumps (JObj did_open))),
          Debug_unhandled_notification (Some (JStr (ascii ''textDocument/didOpen'')))]"
proof -
  let ?c = "listening (did_open_bytes @ frame body_result_1)"
  have l: "loads plain_env = json_loads"
    by (simp add: plain_env_def)
  have w: "wf_json (JObj did_open)"
    by (simp add: did_open_def ascii_def high_surrogate_def low_surrogate_def)
  have b: "utf8_encode (format_request (JObj did_open)) = Inr did_open_bytes"
    by (simp add: did_open_bytes_def utf8_encode_format_request)
  have k: "\<not> has_key did_open ''error''" "has_key did_open ''method''"
    "\<not> has_key did_open ''id''"
    "get did_open ''method'' = Some (JStr (ascii ''textDocument/didOpen''))"
    by (simp_all add: did_open_def has_key_def get_def ascii_def)
  have h: "handle_payload plain_env c did_open =
      emit (Debug_unhandled_notification (Some (JStr (ascii ''textDocument/didOpen'')))) c"
    for c :: "nat client"
    by (simp add: handle_payload_def dispatch_def notification_handler_def k Let_def)
      (simp add: ascii_def)
  have n: "noted c did_open x = emit (Debug_got_json (take 200 x)) c" for c :: "nat client" and x
    by (simp add: noted_def k) (simp add: ascii_def)
  from decode_encode_round_trip [OF l w b listening_fields(1) listening_fields(4)]
  show ?thesis by (simp add: l w b h n listening_fields del: dumps.simps wf_json.simps)
qed

end
